theory Spec2Isabelle
  imports Complex_Main
begin

section \<open>Strings and regular expressions of the source\<close>

text \<open>
  A JavaScript string is modelled as \<^typ>\<open>string\<close>, one \<^typ>\<open>char\<close> per code unit
  (code units below 256). The source uses five regular expressions, all of them a
  sequence of literals, quantified character classes and assertions. They are kept as
  data and run by one backtracking matcher that returns the candidate matches in the
  order in which the ECMAScript matcher tries them (greedy quantifiers give back one
  character at a time); the first candidate is the match.
\<close>

definition char_code :: "char \<Rightarrow> nat" where
  "char_code c = of_char c"

definition to_upper :: "char \<Rightarrow> char" where
  "to_upper c = (if 97 \<le> char_code c \<and> char_code c \<le> 122 then char_of (char_code c - 32) else c)"

definition to_lower :: "char \<Rightarrow> char" where
  "to_lower c = (if 65 \<le> char_code c \<and> char_code c \<le> 90 then char_of (char_code c + 32) else c)"

text \<open>One member of a character class: a character, a range \<open>a-f\<close>, \<open>\d\<close> or \<open>\s\<close>.\<close>

datatype citem = CChar char | CRange char char | CDigit | CSpace

fun in_item :: "citem \<Rightarrow> char \<Rightarrow> bool" where
  "in_item (CChar x) c = (c = x)"
| "in_item (CRange lo hi) c = (char_code lo \<le> char_code c \<and> char_code c \<le> char_code hi)"
| "in_item CDigit c = (48 \<le> char_code c \<and> char_code c \<le> 57)"
| "in_item CSpace c = (char_code c \<in> {9, 10, 11, 12, 13, 32, 160})"

text \<open>
  With the \<open>i\<close> flag a character matches a class when its canonical (upper-case) form
  is the canonical form of a member of the class.
\<close>

definition in_class :: "bool \<Rightarrow> citem list \<Rightarrow> char \<Rightarrow> bool" where
  "in_class ic cls c =
     (if ic then list_ex (\<lambda>it. in_item it (to_upper c) \<or> in_item it (to_lower c)) cls
      else list_ex (\<lambda>it. in_item it c) cls)"

definition word_char :: "char \<Rightarrow> bool" where
  "word_char c = list_ex (\<lambda>it. in_item it c)
     [CRange CHR ''a'' CHR ''z'', CRange CHR ''A'' CHR ''Z'', CDigit, CChar CHR ''_'']"

text \<open>
  A node of a pattern. \<open>Rep cls lo hi\<close> is the class \<open>cls\<close> under the greedy quantifier
  \<open>{lo,hi}\<close> (\<open>hi = None\<close>: unbounded), so \<open>+\<close> is \<open>Rep cls 1 None\<close>.
\<close>

datatype node =
    Lit string
  | Rep "citem list" nat "nat option"
  | WordB
  | Bol
  | Eol

text \<open>A position in the subject: the character before it, if any, and the rest.\<close>

type_synonym pos = "char option \<times> string"

fun advance :: "pos \<Rightarrow> nat \<Rightarrow> pos" where
  "advance (prev, rest) n = (if n = 0 then prev else Some (rest ! (n - 1)), drop n rest)"

definition is_word :: "char option \<Rightarrow> bool" where
  "is_word p = (case p of None \<Rightarrow> False | Some c \<Rightarrow> word_char c)"

fun lit_match :: "bool \<Rightarrow> string \<Rightarrow> string \<Rightarrow> bool" where
  "lit_match ic [] rest = True"
| "lit_match ic (x # xs) [] = False"
| "lit_match ic (x # xs) (c # cs) =
     ((if ic then to_upper c = to_upper x else c = x) \<and> lit_match ic xs cs)"

text \<open>
  The numbers of characters a node may consume at a position, in the order in which the
  matcher tries them: a greedy quantifier tries the longest run first.
\<close>

fun node_counts :: "bool \<Rightarrow> node \<Rightarrow> pos \<Rightarrow> nat list" where
  "node_counts ic (Lit s) (prev, rest) = (if lit_match ic s rest then [length s] else [])"
| "node_counts ic (Rep cls lo hi) (prev, rest) =
     (let avail = (case hi of None \<Rightarrow> rest | Some h \<Rightarrow> take h rest);
          k = length (takeWhile (in_class ic cls) avail)
      in rev [lo ..< Suc k])"
| "node_counts ic WordB (prev, rest) =
     (if is_word prev \<noteq> is_word (case rest of [] \<Rightarrow> None | c # _ \<Rightarrow> Some c)
      then [0] else [])"
| "node_counts ic Bol (prev, rest) = (if prev = None then [0] else [])"
| "node_counts ic Eol (prev, rest) = (if rest = [] then [0] else [])"

definition match_node :: "bool \<Rightarrow> node \<Rightarrow> pos \<Rightarrow> pos list" where
  "match_node ic n p = map (advance p) (node_counts ic n p)"

fun match_seq :: "bool \<Rightarrow> node list \<Rightarrow> pos \<Rightarrow> pos list" where
  "match_seq ic [] p = [p]"
| "match_seq ic (n # ns) p = concat (map (match_seq ic ns) (match_node ic n p))"

definition match_at :: "bool \<Rightarrow> node list \<Rightarrow> pos \<Rightarrow> pos option" where
  "match_at ic rx p = (case match_seq ic rx p of [] \<Rightarrow> None | q # _ \<Rightarrow> Some q)"

text \<open>\<open>RegExp.prototype.test\<close> without the \<open>g\<close> flag: a match at some position.\<close>

fun search :: "bool \<Rightarrow> node list \<Rightarrow> pos \<Rightarrow> bool" where
  "search ic rx (prev, []) = (match_at ic rx (prev, []) \<noteq> None)"
| "search ic rx (prev, c # cs) =
     (match_at ic rx (prev, c # cs) \<noteq> None \<or> search ic rx (Some c, cs))"

definition regex_test :: "bool \<Rightarrow> node list \<Rightarrow> string \<Rightarrow> bool" where
  "regex_test ic rx s = search ic rx (None, s)"

section \<open>Identifier validation (validation module)\<close>

text \<open>\<open>const CLOUDFLARE_ID_REGEX = /^[a-f0-9]{32}$/;\<close>\<close>

definition CLOUDFLARE_ID_REGEX :: "node list" where
  "CLOUDFLARE_ID_REGEX =
     [Bol, Rep [CRange CHR ''a'' CHR ''f'', CRange CHR ''0'' CHR ''9''] 32 (Some 32), Eol]"

text \<open>\<open>cloudflareIdSchema = z.string().regex(CLOUDFLARE_ID_REGEX, ...)\<close>: accepts or rejects.\<close>

definition cloudflareIdSchema :: "string \<Rightarrow> bool" where
  "cloudflareIdSchema s = regex_test False CLOUDFLARE_ID_REGEX s"

definition lower_hex :: "char \<Rightarrow> bool" where
  "lower_hex c = (c \<in> set ''0123456789abcdef'')"

section \<open>String helpers of the runtime\<close>

text \<open>\<open>String.prototype.includes\<close>: the argument occurs as a contiguous substring.\<close>

fun str_includes :: "string \<Rightarrow> string \<Rightarrow> bool" where
  "str_includes [] sub = (sub = [])"
| "str_includes (c # cs) sub = (take (length sub) (c # cs) = sub \<or> str_includes cs sub)"

text \<open>\<open>Array.prototype.join\<close> with a separator.\<close>

fun join :: "string \<Rightarrow> string list \<Rightarrow> string" where
  "join sep [] = []"
| "join sep [x] = x"
| "join sep (x # y # ys) = x @ sep @ join sep (y # ys)"

text \<open>
  \<open>String.prototype.replace\<close> with a pattern that has the \<open>g\<close> flag and a replacement
  string without \<open>$\<close>: scan from the left, replace each match, continue after it. After an
  empty match the scan copies one character and goes on.
\<close>

function replace_from :: "bool \<Rightarrow> node list \<Rightarrow> string \<Rightarrow> pos \<Rightarrow> string" where
  "replace_from ic rx repl (prev, rest) =
     (case match_at ic rx (prev, rest) of
        Some (prev', rest') \<Rightarrow>
          if length rest' < length rest then repl @ replace_from ic rx repl (prev', rest')
          else (case rest of [] \<Rightarrow> repl
                | c # cs \<Rightarrow> repl @ c # replace_from ic rx repl (Some c, cs))
      | None \<Rightarrow>
          (case rest of [] \<Rightarrow> []
           | c # cs \<Rightarrow> c # replace_from ic rx repl (Some c, cs)))"
  by pat_completeness auto
termination
  by (relation "measure (\<lambda>(ic, rx, repl, prev, rest). length rest)") auto

declare replace_from.simps [simp del]

definition replace_all :: "bool \<Rightarrow> node list \<Rightarrow> string \<Rightarrow> string \<Rightarrow> string" where
  "replace_all ic rx repl s = replace_from ic rx repl (None, s)"

section \<open>The error sanitizer (API client module)\<close>

definition alnum :: "citem list" where
  "alnum = [CRange CHR ''a'' CHR ''z'', CRange CHR ''A'' CHR ''Z'', CRange CHR ''0'' CHR ''9'']"

text \<open>\<open>/Bearer\s+[a-zA-Z0-9_-]+/gi\<close>\<close>

definition BEARER_RX :: "node list" where
  "BEARER_RX = [Lit ''Bearer'', Rep [CSpace] 1 None,
                Rep (alnum @ [CChar CHR ''_'', CChar CHR ''-'']) 1 None]"

text \<open>\<open>/[a-f0-9]{32,}/gi\<close>\<close>

definition HEX_RX :: "node list" where
  "HEX_RX = [Rep [CRange CHR ''a'' CHR ''f'', CRange CHR ''0'' CHR ''9''] 32 None]"

text \<open>\<open>/[a-zA-Z0-9._%+-]+@[a-zA-Z0-9.-]+\.[a-zA-Z]{2,}/g\<close>\<close>

definition EMAIL_RX :: "node list" where
  "EMAIL_RX =
     [Rep (alnum @ [CChar CHR ''.'', CChar CHR ''_'', CChar CHR ''%'', CChar CHR ''+'',
                    CChar CHR ''-'']) 1 None,
      Lit ''@'',
      Rep (alnum @ [CChar CHR ''.'', CChar CHR ''-'']) 1 None,
      Lit ''.'',
      Rep [CRange CHR ''a'' CHR ''z'', CRange CHR ''A'' CHR ''Z''] 2 None]"

text \<open>\<open>/\b\d{1,3}\.\d{1,3}\.\d{1,3}\.\d{1,3}\b/g\<close>\<close>

definition IP_RX :: "node list" where
  "IP_RX = [WordB, Rep [CDigit] 1 (Some 3), Lit ''.'', Rep [CDigit] 1 (Some 3), Lit ''.'',
            Rep [CDigit] 1 (Some 3), Lit ''.'', Rep [CDigit] 1 (Some 3), WordB]"

text \<open>The four replacements of \<open>sanitizeErrorMessage\<close>, in the order of the source.\<close>

definition redact :: "string \<Rightarrow> string" where
  "redact message =
     replace_all False IP_RX ''[REDACTED_IP]''
       (replace_all False EMAIL_RX ''[REDACTED_EMAIL]''
         (replace_all True HEX_RX ''[REDACTED_ID]''
           (replace_all True BEARER_RX ''Bearer [REDACTED]'' message)))"

definition sanitizeErrorMessage :: "string \<Rightarrow> string" where
  "sanitizeErrorMessage message =
     (let sanitized = redact message
      in if length sanitized > 200 then take 200 sanitized @ ''...'' else sanitized)"

section \<open>Notions for reasoning about matches\<close>

text \<open>
  \<open>reach ic rx p\<close> is the set of the numbers of characters that the pattern \<open>rx\<close> can
  consume at the position \<open>p\<close>, over all the choices of its quantifiers: the matcher
  finds a match at \<open>p\<close> if and only if the set is not empty.
\<close>

fun reach :: "bool \<Rightarrow> node list \<Rightarrow> pos \<Rightarrow> nat set" where
  "reach ic [] p = {0}"
| "reach ic (n # ns) p =
     (\<Union>c \<in> set (node_counts ic n p). (\<lambda>m. c + m) ` reach ic ns (advance p c))"

text \<open>The least number of characters a node consumes.\<close>

fun node_min :: "node \<Rightarrow> nat" where
  "node_min (Lit s) = length s"
| "node_min (Rep cls lo hi) = lo"
| "node_min n = 0"

text \<open>The characters that some node of a pattern can consume.\<close>

fun ci_eq :: "bool \<Rightarrow> char \<Rightarrow> char \<Rightarrow> bool" where
  "ci_eq ic c x = (if ic then to_upper c = to_upper x else c = x)"

fun node_eats :: "bool \<Rightarrow> node \<Rightarrow> char \<Rightarrow> bool" where
  "node_eats ic (Lit s) c = list_ex (ci_eq ic c) s"
| "node_eats ic (Rep cls lo hi) c = in_class ic cls c"
| "node_eats ic n c = False"

definition eats :: "bool \<Rightarrow> node list \<Rightarrow> char \<Rightarrow> bool" where
  "eats ic rx c = list_ex (\<lambda>n. node_eats ic n c) rx"

text \<open>A node that is no assertion.\<close>

fun consuming :: "node \<Rightarrow> bool" where
  "consuming (Lit s) = True"
| "consuming (Rep cls lo hi) = True"
| "consuming n = False"

text \<open>The character before the position that follows the prefix \<open>u\<close>.\<close>

definition ctx :: "char option \<Rightarrow> string \<Rightarrow> char option" where
  "ctx prev u = (if u = [] then prev else Some (last u))"

text \<open>
  A string in which the pattern matches at no position: \<open>clean\<close>, given the character
  before the string, and \<open>free\<close>, for a pattern whose matches do not depend on it.
\<close>

definition clean :: "bool \<Rightarrow> node list \<Rightarrow> char option \<Rightarrow> string \<Rightarrow> bool" where
  "clean ic rx prev s = (\<forall>u v. s = u @ v \<longrightarrow> match_at ic rx (ctx prev u, v) = None)"

definition hit :: "bool \<Rightarrow> node list \<Rightarrow> string \<Rightarrow> bool" where
  "hit ic rx v = (match_at ic rx (None, v) \<noteq> None)"

definition free :: "bool \<Rightarrow> node list \<Rightarrow> string \<Rightarrow> bool" where
  "free ic rx s = (\<forall>u v. s = u @ v \<longrightarrow> \<not> hit ic rx v)"

text \<open>
  The two classes of the first pattern, \<open>\s\<close> and \<open>[a-zA-Z0-9_-]\<close> under the \<open>i\<close> flag,
  the class \<open>\d\<close>, the character at a position, and the fourth pattern without its
  last two nodes.
\<close>

definition sp :: "char \<Rightarrow> bool" where
  "sp c = in_class True [CSpace] c"

definition tok :: "char \<Rightarrow> bool" where
  "tok c = in_class True (alnum @ [CChar CHR ''_'', CChar CHR ''-'']) c"

definition digit :: "char \<Rightarrow> bool" where
  "digit c = in_item CDigit c"

definition next_char :: "string \<Rightarrow> char option" where
  "next_char s = (case s of [] \<Rightarrow> None | c # _ \<Rightarrow> Some c)"

definition IP_FRONT :: "node list" where
  "IP_FRONT = [WordB, Rep [CDigit] 1 (Some 3), Lit ''.'', Rep [CDigit] 1 (Some 3), Lit ''.'',
               Rep [CDigit] 1 (Some 3), Lit ''.'']"

section \<open>Data model of the API client\<close>

text \<open>\<open>interface CloudflareApiError\<close>\<close>

record CloudflareApiError =
  code :: int
  message :: string

text \<open>\<open>interface CloudflareApiResponse<T>\<close>, the provider's response envelope.\<close>

record result_info =
  page :: int
  per_page :: int
  total_pages :: int
  count :: int
  total_count :: int

record 'a CloudflareApiResponse =
  success :: bool
  errors :: "CloudflareApiError list"
  messages :: "string list"
  result :: 'a
  result_info :: "result_info option"

text \<open>
  The four fields a caller supplies for a rule, and \<open>interface RulesetRule\<close>, which has
  them among its fields. \<open>id\<close> is \<open>rule_id\<close> here; \<open>action_parameters\<close> has values of
  type \<open>unknown\<close>.
\<close>

typedecl unknown

record RuleFields =
  description :: string
  expression :: string
  action :: string
  enabled :: bool

record RulesetRule = RuleFields +
  rule_id :: string
  version :: string
  action_parameters :: "(string \<times> unknown) list option"
  logging :: "bool option"
  last_updated :: string
  ref :: "string option"

text \<open>\<open>interface Ruleset\<close>; its fields carry the prefix \<open>rs_\<close> except \<open>rules\<close>.\<close>

record Ruleset =
  rs_id :: string
  rs_name :: string
  rs_description :: string
  rs_kind :: string
  rs_version :: string
  rs_phase :: string
  rules :: "RulesetRule list"
  rs_last_updated :: string

text \<open>The \<open>updates\<close> argument of \<open>updateCustomRule\<close>: every field is optional.\<close>

record RuleUpdates =
  upd_description :: "string option"
  upd_expression :: "string option"
  upd_action :: "string option"
  upd_enabled :: "bool option"

subsection \<open>Requests and failures\<close>

datatype http_method = GET | POST | PATCH | DELETE

text \<open>
  The request bodies the client serialises with \<open>JSON.stringify\<close>: the new ruleset
  \<open>{name, kind, phase, rules}\<close>, a rule, the updates of a rule, and the GraphQL document
  \<open>{query, variables}\<close>.
\<close>

datatype body =
    NoBody
  | NewRuleset string string string "RuleFields list"
  | NewRule RuleFields
  | Updates RuleUpdates
  | GraphQL string "(string \<times> string) list"

text \<open>
  A request as \<open>fetch\<close> receives it. The path after \<open>CF_API_BASE\<close> is kept as its list of
  segments: the source writes \<open>`/zones/${encodeURIComponent(zoneId)}/rulesets`\<close>, which is
  \<open>endpoint [''zones'', encodeURIComponent zoneId, ''rulesets'']\<close>.
\<close>

record http_request =
  req_method :: http_method
  req_path :: "string list"
  req_headers :: "(string \<times> string) list"
  req_body :: body

definition endpoint :: "string list \<Rightarrow> string" where
  "endpoint segs = concat (map (\<lambda>seg. ''/'' @ seg) segs)"

text \<open>
  What awaiting \<open>fetch(...)\<close> and \<open>response.json()\<close> gives: the parsed body, typed as the
  source casts it, or an exception with its message (network failure, malformed body).
\<close>

datatype 'a fetched = Threw string | Json 'a

text \<open>
  The source throws plain \<open>Error\<close> objects; a catch block sees the message only. The kind
  records where the error was raised: from a failed envelope or GraphQL error list, from
  the check of \<open>updateCustomRule\<close> on the response, or by \<open>fetch\<close> itself.
\<close>

datatype error_kind = ApiError | ConsistencyError | TransportError

datatype error = Error error_kind string

fun error_message :: "error \<Rightarrow> string" where
  "error_message (Error k m) = m"

fun kind_of :: "error \<Rightarrow> error_kind" where
  "kind_of (Error k m) = k"

record CloudflareApi =
  accessToken :: string

subsection \<open>\<open>encodeURIComponent\<close>\<close>

definition hex_digit :: "nat \<Rightarrow> char" where
  "hex_digit n = ''0123456789ABCDEF'' ! (n mod 16)"

definition percent :: "nat \<Rightarrow> string" where
  "percent b = [CHR ''%'', hex_digit (b div 16), hex_digit b]"

definition unreserved :: "char \<Rightarrow> bool" where
  "unreserved c = (list_ex (\<lambda>it. in_item it c) alnum \<or> c \<in> set ''-_.!~*'' \<or> c = CHR 0x27
                   \<or> c \<in> set ''()'')"

text \<open>A code unit below 128 is one UTF-8 byte, one from 128 to 255 is two.\<close>

definition encodeURIComponent :: "string \<Rightarrow> string" where
  "encodeURIComponent s = concat (map (\<lambda>c.
       if unreserved c then [c]
       else if char_code c < 128 then percent (char_code c)
       else percent (192 + char_code c div 64) @ percent (128 + char_code c mod 64)) s)"

section \<open>The API client\<close>

text \<open>
  Every method takes the \<open>fetch\<close> of the runtime and the state \<open>w\<close> of the world outside
  (the provider), and returns its outcome with the new state: \<open>Inl\<close> a thrown error,
  \<open>Inr\<close> the value returned.
\<close>

type_synonym ('w, 'a) fetch = "'w \<Rightarrow> http_request \<Rightarrow> 'a fetched \<times> 'w"

text \<open>
  The request that \<open>request\<close> hands to \<open>fetch\<close>, with the two headers it sets, and the
  paths the methods below build.
\<close>

definition api_request :: "CloudflareApi \<Rightarrow> http_method \<Rightarrow> string list \<Rightarrow> body \<Rightarrow> http_request" where
  "api_request api m path b =
     \<lparr>req_method = m, req_path = path,
      req_headers = [(''Authorization'', ''Bearer '' @ accessToken api),
                     (''Content-Type'', ''application/json'')],
      req_body = b\<rparr>"

definition entrypoint_path :: "string \<Rightarrow> string \<Rightarrow> string list" where
  "entrypoint_path zoneId phase =
     [''zones'', encodeURIComponent zoneId, ''rulesets'', ''phases'',
      encodeURIComponent phase, ''entrypoint'']"

definition rulesets_path :: "string \<Rightarrow> string list" where
  "rulesets_path zoneId = [''zones'', encodeURIComponent zoneId, ''rulesets'']"

definition rules_path :: "string \<Rightarrow> string \<Rightarrow> string list" where
  "rules_path zoneId rulesetId =
     [''zones'', encodeURIComponent zoneId, ''rulesets'', encodeURIComponent rulesetId,
      ''rules'']"

definition rule_path :: "string \<Rightarrow> string \<Rightarrow> string \<Rightarrow> string list" where
  "rule_path zoneId rulesetId ruleId =
     [''zones'', encodeURIComponent zoneId, ''rulesets'', encodeURIComponent rulesetId,
      ''rules'', encodeURIComponent ruleId]"

definition request ::
  "CloudflareApi \<Rightarrow> ('w, 'a CloudflareApiResponse) fetch \<Rightarrow> http_method \<Rightarrow> string list \<Rightarrow> body
     \<Rightarrow> 'w \<Rightarrow> (error + 'a CloudflareApiResponse) \<times> 'w" where
  "request api fetch m path b w =
     (case fetch w (api_request api m path b) of
        (Threw msg, w') \<Rightarrow> (Inl (Error TransportError msg), w')
      | (Json data, w') \<Rightarrow>
          if \<not> success data then
            (let errorMessage = join '', '' (map message (errors data))
             in (Inl (Error ApiError
                        (''Cloudflare API error: '' @ sanitizeErrorMessage errorMessage)), w'))
          else (Inr data, w'))"

text \<open>
  The body of a GraphQL response, \<open>{ data: T; errors?: Array<{ message: string }> }\<close>.
  The request goes to \<open>CF_GRAPHQL_URL\<close>, which is \<open>CF_API_BASE\<close> followed by
  \<open>/graphql\<close>.
\<close>

record 'a graphql_response =
  gql_data :: 'a
  gql_errors :: "string list option"

definition graphqlRequest ::
  "CloudflareApi \<Rightarrow> ('w, 'a graphql_response) fetch \<Rightarrow> string \<Rightarrow> (string \<times> string) list
     \<Rightarrow> 'w \<Rightarrow> (error + 'a) \<times> 'w" where
  "graphqlRequest api fetch query variables w =
     (case fetch w (api_request api POST [''graphql''] (GraphQL query variables)) of
        (Threw msg, w') \<Rightarrow> (Inl (Error TransportError msg), w')
      | (Json data, w') \<Rightarrow>
          (case gql_errors data of
             Some (e # es) \<Rightarrow>
               (let errorMessage = join '', '' (e # es)
                in (Inl (Error ApiError
                           (''GraphQL error: '' @ sanitizeErrorMessage errorMessage)), w'))
           | _ \<Rightarrow> (Inr (gql_data data), w')))"

definition getEntryPointRuleset ::
  "CloudflareApi \<Rightarrow> ('w, Ruleset CloudflareApiResponse) fetch \<Rightarrow> string \<Rightarrow> string
     \<Rightarrow> 'w \<Rightarrow> (error + Ruleset) \<times> 'w" where
  "getEntryPointRuleset api fetch zoneId phase w =
     (case request api fetch GET (entrypoint_path zoneId phase) NoBody w of
        (Inl e, w') \<Rightarrow> (Inl e, w')
      | (Inr response, w') \<Rightarrow> (Inr (result response), w'))"

text \<open>
  \<open>xs[xs.length - 1]\<close>: the last element, \<open>undefined\<close> (here \<open>None\<close>) for an empty array.
\<close>

definition last_element :: "'a list \<Rightarrow> 'a option" where
  "last_element xs = (if xs = [] then None else Some (xs ! (length xs - 1)))"

text \<open>
  \<open>createCustomRule\<close>. Its first part gets the identifier of the entry-point ruleset or
  creates the ruleset; the second part appends the rule. The value returned is
  \<open>response.result.rules[response.result.rules.length - 1]\<close>.
\<close>

definition get_or_create_ruleset ::
  "CloudflareApi \<Rightarrow> ('w, Ruleset CloudflareApiResponse) fetch \<Rightarrow> string
     \<Rightarrow> 'w \<Rightarrow> (error + string) \<times> 'w" where
  "get_or_create_ruleset api fetch zoneId w =
     (case getEntryPointRuleset api fetch zoneId ''http_request_firewall_custom'' w of
        (Inr ruleset, w1) \<Rightarrow> (Inr (rs_id ruleset), w1)
      | (Inl err, w1) \<Rightarrow>
          if str_includes (error_message err) ''404''
             \<or> str_includes (error_message err) ''not found'' then
            (case request api fetch POST (rulesets_path zoneId)
                    (NewRuleset ''Custom Firewall Rules'' ''zone''
                       ''http_request_firewall_custom'' []) w1 of
               (Inl e, w2) \<Rightarrow> (Inl e, w2)
             | (Inr newRuleset, w2) \<Rightarrow> (Inr (rs_id (result newRuleset)), w2))
          else (Inl err, w1))"

definition createCustomRule ::
  "CloudflareApi \<Rightarrow> ('w, Ruleset CloudflareApiResponse) fetch \<Rightarrow> string \<Rightarrow> RuleFields
     \<Rightarrow> 'w \<Rightarrow> (error + RulesetRule option) \<times> 'w" where
  "createCustomRule api fetch zoneId rule w =
     (case get_or_create_ruleset api fetch zoneId w of
        (Inl e, w') \<Rightarrow> (Inl e, w')
      | (Inr rulesetId, w') \<Rightarrow>
          (case request api fetch POST (rules_path zoneId rulesetId) (NewRule rule) w' of
             (Inl e, w3) \<Rightarrow> (Inl e, w3)
           | (Inr response, w3) \<Rightarrow> (Inr (last_element (rules (result response))), w3)))"

definition updateCustomRule ::
  "CloudflareApi \<Rightarrow> ('w, Ruleset CloudflareApiResponse) fetch \<Rightarrow> string \<Rightarrow> string \<Rightarrow> string
     \<Rightarrow> RuleUpdates \<Rightarrow> 'w \<Rightarrow> (error + RulesetRule) \<times> 'w" where
  "updateCustomRule api fetch zoneId rulesetId ruleId updates w =
     (case request api fetch PATCH (rule_path zoneId rulesetId ruleId) (Updates updates) w of
        (Inl e, w') \<Rightarrow> (Inl e, w')
      | (Inr response, w') \<Rightarrow>
          (case find (\<lambda>r. rule_id r = ruleId) (rules (result response)) of
             None \<Rightarrow> (Inl (Error ConsistencyError ''Updated rule not found in response''), w')
           | Some updatedRule \<Rightarrow> (Inr updatedRule, w')))"

subsection \<open>Security events summary\<close>

text \<open>
  One group of the response, \<open>{ count: number; dimensions: { action: string } }\<close>: the
  object \<open>dimensions\<close> has one field in each of the three lists and is kept as that field.
\<close>

record event_group =
  grp_count :: int
  grp_dimension :: string

record summary_zone =
  z_byAction :: "event_group list"
  z_bySource :: "event_group list"
  z_byCountry :: "event_group list"

text \<open>The response data \<open>{ viewer: { zones: Array<...> } }\<close>.\<close>

record summary_data =
  viewer_zones :: "summary_zone list"

text \<open>
  An entry of the value returned, \<open>{ action: string; count: number }\<close> (respectively
  \<open>source\<close>, \<open>country\<close>): the key and the count.
\<close>

record summary_entry =
  entry_key :: string
  entry_count :: int

record events_summary =
  byAction :: "summary_entry list"
  bySource :: "summary_entry list"
  byCountry :: "summary_entry list"

definition summary_query :: string where
  "summary_query = concat
     [''query GetSecuritySummary($zoneTag: string!, $start: Time!, $end: Time!) { '',
      ''viewer { zones(filter: { zoneTag: $zoneTag }) { '',
      ''byAction: firewallEventsAdaptiveGroups(filter: { datetime_geq: $start, '',
      ''datetime_leq: $end } limit: 20 orderBy: [count_DESC]) '',
      ''{ count dimensions { action } } '',
      ''bySource: firewallEventsAdaptiveGroups(filter: { datetime_geq: $start, '',
      ''datetime_leq: $end } limit: 20 orderBy: [count_DESC]) '',
      ''{ count dimensions { source } } '',
      ''byCountry: firewallEventsAdaptiveGroups(filter: { datetime_geq: $start, '',
      ''datetime_leq: $end } limit: 20 orderBy: [count_DESC]) '',
      ''{ count dimensions { clientCountryName } } } } }'']"

definition to_entry :: "event_group \<Rightarrow> summary_entry" where
  "to_entry item = \<lparr>entry_key = grp_dimension item, entry_count = grp_count item\<rparr>"

definition getSecurityEventsSummary ::
  "CloudflareApi \<Rightarrow> ('w, summary_data graphql_response) fetch \<Rightarrow> string \<Rightarrow> string \<Rightarrow> string
     \<Rightarrow> 'w \<Rightarrow> (error + events_summary) \<times> 'w" where
  "getSecurityEventsSummary api fetch zoneTag startTime endTime w =
     (case graphqlRequest api fetch summary_query
             [(''zoneTag'', zoneTag), (''start'', startTime), (''end'', endTime)] w of
        (Inl e, w') \<Rightarrow> (Inl e, w')
      | (Inr res, w') \<Rightarrow>
          (let zone = (case viewer_zones res of [] \<Rightarrow> None | z # _ \<Rightarrow> Some z)
           in (Inr \<lparr>byAction = (case zone of None \<Rightarrow> []
                                 | Some z \<Rightarrow> map to_entry (z_byAction z)),
                    bySource = (case zone of None \<Rightarrow> []
                                 | Some z \<Rightarrow> map to_entry (z_bySource z)),
                    byCountry = (case zone of None \<Rightarrow> []
                                  | Some z \<Rightarrow> map to_entry (z_byCountry z))\<rparr>, w')))"

text \<open>
  The request of the summary, a response without zone data or whose first zone has three
  empty lists, and the summary with three empty lists.
\<close>

definition summary_request :: "CloudflareApi \<Rightarrow> string \<Rightarrow> string \<Rightarrow> string \<Rightarrow> http_request" where
  "summary_request api zoneTag start end' =
     api_request api POST [''graphql'']
       (GraphQL summary_query [(''zoneTag'', zoneTag), (''start'', start), (''end'', end')])"

definition no_events :: "summary_data \<Rightarrow> bool" where
  "no_events d = (case viewer_zones d of [] \<Rightarrow> True
     | z # _ \<Rightarrow> z_byAction z = [] \<and> z_bySource z = [] \<and> z_byCountry z = [])"

definition empty_summary :: events_summary where
  "empty_summary = \<lparr>byAction = [], bySource = [], byCountry = []\<rparr>"

section \<open>Tool handlers\<close>

text \<open>
  The argument \<open>enabled\<close> of \<open>toggle_rule\<close> is \<open>on\<close> below. A handler returns \<open>{ content: [{ type: "text", text }] }\<close>. The text is either a string
  built by the handler or \<open>JSON.stringify(value, null, 2)\<close> of a value, kept as the value.
\<close>

datatype 'j content = Text string | JsonText 'j

text \<open>
  The two values \<open>list_custom_rules\<close> serialises: the ruleset, or
  \<open>{ rules: [], message: "No custom rules configured for this zone" }\<close>.
\<close>

datatype rules_listing = Listing Ruleset | NoRules "RulesetRule list" string

definition list_custom_rules ::
  "CloudflareApi \<Rightarrow> ('w, Ruleset CloudflareApiResponse) fetch \<Rightarrow> string
     \<Rightarrow> 'w \<Rightarrow> (error + rules_listing content list) \<times> 'w" where
  "list_custom_rules api fetch zoneId w =
     (case getEntryPointRuleset api fetch zoneId ''http_request_firewall_custom'' w of
        (Inr ruleset, w') \<Rightarrow> (Inr [JsonText (Listing ruleset)], w')
      | (Inl err, w') \<Rightarrow>
          if str_includes (error_message err) ''404''
             \<or> str_includes (error_message err) ''not found'' then
            (Inr [JsonText (NoRules [] ''No custom rules configured for this zone'')], w')
          else (Inl err, w'))"

definition toggle_rule ::
  "CloudflareApi \<Rightarrow> ('w, Ruleset CloudflareApiResponse) fetch \<Rightarrow> string \<Rightarrow> string \<Rightarrow> string
     \<Rightarrow> bool \<Rightarrow> 'w \<Rightarrow> unit content list \<times> 'w" where
  "toggle_rule api fetch zoneId rulesetId ruleId on w =
     (case updateCustomRule api fetch zoneId rulesetId ruleId
             \<lparr>upd_description = None, upd_expression = None, upd_action = None,
              upd_enabled = Some on\<rparr> w of
        (Inr res, w') \<Rightarrow>
          ([Text (''Successfully '' @ (if on then ''enabled'' else ''disabled'')
                  @ '' rule '' @ ruleId)], w')
      | (Inl err, w') \<Rightarrow>
          ([Text (''Failed to toggle rule: '' @ sanitizeErrorMessage (error_message err))], w'))"

subsection \<open>Dispatch of a tool call\<close>

text \<open>
  Modelled from the spec: the dispatch of a registered tool belongs to the tool-calling
  SDK, which is not part of the repository. A tool is registered with the schema of its
  input and a handler; validation occurs before the handler runs, and a validation
  failure never reaches the API client. The failure carries the message of the schema.
\<close>

definition call_tool ::
  "('i \<Rightarrow> bool) \<Rightarrow> string \<Rightarrow> ('i \<Rightarrow> 'w \<Rightarrow> 'r \<times> 'w) \<Rightarrow> 'i \<Rightarrow> 'w \<Rightarrow> (string + 'r) \<times> 'w" where
  "call_tool schema msg handler input w =
     (if schema input then (case handler input w of (r, w') \<Rightarrow> (Inr r, w'))
      else (Inl msg, w))"

text \<open>The message of \<open>cloudflareIdSchema\<close>, and \<open>list_custom_rules\<close> as it is registered.\<close>

definition id_format_message :: string where
  "id_format_message = ''Invalid Cloudflare ID format (expected 32-character hex string)''"

definition list_custom_rules_tool ::
  "CloudflareApi \<Rightarrow> ('w, Ruleset CloudflareApiResponse) fetch \<Rightarrow> string
     \<Rightarrow> 'w \<Rightarrow> (string + (error + rules_listing content list)) \<times> 'w" where
  "list_custom_rules_tool api fetch =
     call_tool cloudflareIdSchema id_format_message (list_custom_rules api fetch)"

subsection \<open>The time range of the analytics tools\<close>

text \<open>
  A \<open>Date\<close> holds a time value, an integral number of milliseconds: the constructor
  applies \<open>TimeClip\<close>, which truncates towards zero and gives an invalid date beyond
  8.64e15. Numbers are taken as exact rationals. \<open>toISOString\<close> writes a valid time value
  to the millisecond and throws on an invalid date; the strings are kept as the time
  values they denote, and the exception as \<open>None\<close>.
\<close>

definition TimeClip :: "rat \<Rightarrow> int option" where
  "TimeClip t = (if \<bar>t\<bar> \<le> 8640000000000000
                 then Some (if 0 \<le> t then \<lfloor>t\<rfloor> else \<lceil>t\<rceil>) else None)"

record time_range =
  startTime :: int
  endTime :: int

text \<open>\<open>getTimeRange(minutes)\<close>, with the time value \<open>now\<close> of \<open>new Date()\<close>.\<close>

definition getTimeRange :: "rat \<Rightarrow> int \<Rightarrow> time_range option" where
  "getTimeRange minutes now =
     (case TimeClip (of_int now - minutes * 60 * 1000) of
        None \<Rightarrow> None
      | Some start \<Rightarrow> Some \<lparr>startTime = start, endTime = now\<rparr>)"

text \<open>\<open>minutes: z.number().min(1).max(1440)\<close>\<close>

definition minutes_schema :: "rat \<Rightarrow> bool" where
  "minutes_schema n = (1 \<le> n \<and> n \<le> 1440)"

section \<open>A reference provider\<close>

text \<open>
  Modelled from the spec: the provider behind \<open>fetch\<close> is a remote service and no part
  of the repository. The reference provider below follows the data model of the spec: a
  zone holds rulesets, a ruleset has a phase and an ordered sequence of rules, an entry
  point is looked up by zone and phase, a rule is appended at the end, and a \<open>PATCH\<close>
  changes the supplied fields of a rule and no other. It addresses zones, phases,
  rulesets and rules by the path segments of the request. It creates a ruleset whenever
  asked to, so that a single entry point per zone and phase is owed to its clients. The
  message with which it reports a missing entry point is the parameter \<open>nf\<close>.
\<close>

record backend =
  rulesets_of :: "string \<Rightarrow> Ruleset list"
  next_id :: nat

fun hex_of :: "nat \<Rightarrow> nat \<Rightarrow> string" where
  "hex_of 0 n = []"
| "hex_of (Suc k) n = hex_of k (n div 16) @ [''0123456789abcdef'' ! (n mod 16)]"

definition fresh_id :: "nat \<Rightarrow> string" where
  "fresh_id n = hex_of 32 n"

definition null_ruleset :: Ruleset where
  "null_ruleset = \<lparr>rs_id = [], rs_name = [], rs_description = [], rs_kind = [],
                    rs_version = [], rs_phase = [], rules = [], rs_last_updated = []\<rparr>"

definition ok :: "Ruleset \<Rightarrow> Ruleset CloudflareApiResponse" where
  "ok r = \<lparr>success = True, errors = [], messages = [], result = r, result_info = None\<rparr>"

definition failed :: "int \<Rightarrow> string \<Rightarrow> Ruleset CloudflareApiResponse" where
  "failed c msg = \<lparr>success = False, errors = [\<lparr>code = c, message = msg\<rparr>], messages = [],
                    result = null_ruleset, result_info = None\<rparr>"

definition entry_points :: "backend \<Rightarrow> string \<Rightarrow> string \<Rightarrow> Ruleset list" where
  "entry_points b zone phase =
     filter (\<lambda>r. encodeURIComponent (rs_phase r) = phase) (rulesets_of b zone)"

definition new_rule :: "string \<Rightarrow> RuleFields \<Rightarrow> RulesetRule" where
  "new_rule i f = \<lparr>description = description f, expression = expression f, action = action f,
                   enabled = enabled f, rule_id = i, version = ''1'', action_parameters = None,
                   logging = None, last_updated = [], ref = None\<rparr>"

definition apply_updates :: "RuleUpdates \<Rightarrow> RulesetRule \<Rightarrow> RulesetRule" where
  "apply_updates u r =
     r\<lparr>description := (case upd_description u of None \<Rightarrow> description r | Some d \<Rightarrow> d),
       expression := (case upd_expression u of None \<Rightarrow> expression r | Some e \<Rightarrow> e),
       action := (case upd_action u of None \<Rightarrow> action r | Some a \<Rightarrow> a),
       enabled := (case upd_enabled u of None \<Rightarrow> enabled r | Some e \<Rightarrow> e)\<rparr>"

definition get_entrypoint ::
  "string \<Rightarrow> backend \<Rightarrow> string \<Rightarrow> string \<Rightarrow> Ruleset CloudflareApiResponse \<times> backend" where
  "get_entrypoint nf b zone phase =
     (case entry_points b zone phase of
        [] \<Rightarrow> (failed 10003 nf, b)
      | r # _ \<Rightarrow> (ok r, b))"

definition create_ruleset ::
  "backend \<Rightarrow> string \<Rightarrow> string \<Rightarrow> string \<Rightarrow> string \<Rightarrow> RuleFields list
     \<Rightarrow> Ruleset CloudflareApiResponse \<times> backend" where
  "create_ruleset b zone name kind phase fs =
     (let r = \<lparr>rs_id = fresh_id (next_id b), rs_name = name, rs_description = [],
                rs_kind = kind, rs_version = ''1'', rs_phase = phase,
                rules = map (\<lambda>(i, f). new_rule (fresh_id (next_id b + 1 + i)) f)
                          (zip [0 ..< length fs] fs),
                rs_last_updated = []\<rparr>
      in (ok r, b\<lparr>rulesets_of := (rulesets_of b)(zone := rulesets_of b zone @ [r]),
                  next_id := next_id b + 1 + length fs\<rparr>))"

definition append_rule ::
  "backend \<Rightarrow> string \<Rightarrow> string \<Rightarrow> RuleFields \<Rightarrow> Ruleset CloudflareApiResponse \<times> backend" where
  "append_rule b zone rs f =
     (let hit = (\<lambda>r. encodeURIComponent (rs_id r) = rs);
          upd = (\<lambda>r. r\<lparr>rules := rules r @ [new_rule (fresh_id (next_id b)) f]\<rparr>)
      in case find hit (rulesets_of b zone) of
           None \<Rightarrow> (failed 10007 ''ruleset not found'', b)
         | Some r \<Rightarrow>
             (ok (upd r),
              b\<lparr>rulesets_of := (rulesets_of b)
                    (zone := map (\<lambda>r. if hit r then upd r else r) (rulesets_of b zone)),
                next_id := next_id b + 1\<rparr>))"

definition patch_rule ::
  "backend \<Rightarrow> string \<Rightarrow> string \<Rightarrow> string \<Rightarrow> RuleUpdates
     \<Rightarrow> Ruleset CloudflareApiResponse \<times> backend" where
  "patch_rule b zone rs rl u =
     (let hit = (\<lambda>r. encodeURIComponent (rs_id r) = rs);
          sel = (\<lambda>x. encodeURIComponent (rule_id x) = rl);
          upd = (\<lambda>r. r\<lparr>rules := map (\<lambda>x. if sel x then apply_updates u x else x) (rules r)\<rparr>)
      in case find hit (rulesets_of b zone) of
           None \<Rightarrow> (failed 10007 ''ruleset not found'', b)
         | Some r \<Rightarrow>
             if list_ex sel (rules r) then
               (ok (upd r),
                b\<lparr>rulesets_of := (rulesets_of b)
                      (zone := map (\<lambda>r. if hit r then upd r else r) (rulesets_of b zone))\<rparr>)
             else (failed 10007 ''rule not found'', b))"

text \<open>The routes of the reference provider; it always answers with an envelope.\<close>

definition route ::
  "string \<Rightarrow> backend \<Rightarrow> http_request \<Rightarrow> Ruleset CloudflareApiResponse \<times> backend" where
  "route nf b rq =
     (case (req_method rq, req_path rq, req_body rq) of
        (GET, [a, zone, c, d, phase, e], NoBody) \<Rightarrow>
          if a = ''zones'' \<and> c = ''rulesets'' \<and> d = ''phases'' \<and> e = ''entrypoint''
          then get_entrypoint nf b zone phase
          else (failed 7003 ''no route for that URI'', b)
      | (POST, [a, zone, c], NewRuleset name kind phase fs) \<Rightarrow>
          if a = ''zones'' \<and> c = ''rulesets''
          then create_ruleset b zone name kind phase fs
          else (failed 7003 ''no route for that URI'', b)
      | (POST, [a, zone, c, rs, e], NewRule f) \<Rightarrow>
          if a = ''zones'' \<and> c = ''rulesets'' \<and> e = ''rules''
          then append_rule b zone rs f
          else (failed 7003 ''no route for that URI'', b)
      | (PATCH, [a, zone, c, rs, e, rl], Updates u) \<Rightarrow>
          if a = ''zones'' \<and> c = ''rulesets'' \<and> e = ''rules''
          then patch_rule b zone rs rl u
          else (failed 7003 ''no route for that URI'', b)
      | _ \<Rightarrow> (failed 7003 ''no route for that URI'', b))"

definition backend_fetch :: "string \<Rightarrow> (backend, Ruleset CloudflareApiResponse) fetch" where
  "backend_fetch nf b rq = (case route nf b rq of (resp, b') \<Rightarrow> (Json resp, b'))"

subsection \<open>Rule creation on the reference provider\<close>

text \<open>
  The message that the client gives to a missing entry point reported with \<open>nf\<close>, and
  whether the catch block of \<open>createCustomRule\<close> takes it for a missing ruleset.
\<close>

definition surfaced :: "string \<Rightarrow> string" where
  "surfaced nf = ''Cloudflare API error: '' @ sanitizeErrorMessage nf"

definition recognised :: "string \<Rightarrow> bool" where
  "recognised nf = (str_includes (surfaced nf) ''404'' \<or> str_includes (surfaced nf) ''not found'')"

text \<open>
  The ruleset that the provider makes for the creation request of \<open>createCustomRule\<close>,
  the state after it, and the effect of an append on one ruleset.
\<close>

definition created :: "backend \<Rightarrow> Ruleset" where
  "created b = \<lparr>rs_id = fresh_id (next_id b), rs_name = ''Custom Firewall Rules'',
                 rs_description = [], rs_kind = ''zone'', rs_version = ''1'',
                 rs_phase = ''http_request_firewall_custom'', rules = [],
                 rs_last_updated = []\<rparr>"

definition with_created :: "backend \<Rightarrow> string \<Rightarrow> backend" where
  "with_created b zone =
     b\<lparr>rulesets_of := (rulesets_of b)(zone := rulesets_of b zone @ [created b]),
       next_id := next_id b + 1\<rparr>"

definition appended :: "backend \<Rightarrow> string \<Rightarrow> RuleFields \<Rightarrow> Ruleset \<Rightarrow> Ruleset" where
  "appended b rs f r =
     (if encodeURIComponent (rs_id r) = rs
      then r\<lparr>rules := rules r @ [new_rule (fresh_id (next_id b)) f]\<rparr> else r)"

text \<open>The invariant of the data model: at most one entry point for a zone and a phase.\<close>

definition unique_entry_points :: "backend \<Rightarrow> bool" where
  "unique_entry_points b = (\<forall>zone phase. length (entry_points b zone phase) \<le> 1)"

section \<open>Concrete inputs\<close>

text \<open>A provider that answers every request with the same body and has no state.\<close>

definition answering :: "'a \<Rightarrow> (unit, 'a) fetch" where
  "answering resp w rq = (Json resp, w)"


definition api0 :: CloudflareApi where
  "api0 = \<lparr>accessToken = ''t''\<rparr>"

definition no_updates :: RuleUpdates where
  "no_updates = \<lparr>upd_description = None, upd_expression = None, upd_action = None,
                  upd_enabled = None\<rparr>"

definition only_enabled :: "bool \<Rightarrow> RuleUpdates" where
  "only_enabled on = no_updates\<lparr>upd_enabled := Some on\<rparr>"

definition rule0 :: RuleFields where
  "rule0 = \<lparr>description = ''d'', expression = ''e'', action = ''block'', enabled = True\<rparr>"

text \<open>An identifier of the shape the tools accept for a zone.\<close>

definition zone0 :: string where
  "zone0 = ''023e105f4ecef8ad9ca31a8372d0c353''"

definition empty_backend :: backend where
  "empty_backend = \<lparr>rulesets_of = (\<lambda>zone. []), next_id = 0\<rparr>"

definition gql_ok :: "'a \<Rightarrow> 'a graphql_response" where
  "gql_ok d = \<lparr>gql_data = d, gql_errors = None\<rparr>"

text \<open>A provider state with one ruleset, holding one disabled rule, in every zone.\<close>

definition seeded_backend :: backend where
  "seeded_backend =
     \<lparr>rulesets_of = (\<lambda>zone. [null_ruleset\<lparr>rs_id := ''s'',
                                   rules := [(new_rule ''r1'' rule0)\<lparr>enabled := False\<rparr>]\<rparr>]),
      next_id = 1\<rparr>"

section \<open>Identifier validation: the accepted strings\<close>

lemma code_inj: "char_code c = char_code d \<longleftrightarrow> c = d"
  by (simp add: char_code_def)

lemma char_cases_range:
  assumes "lo \<le> char_code c" "char_code c \<le> hi"
  shows "c \<in> char_of ` {lo..hi}"
proof -
  have "c = char_of (char_code c)" by (simp add: char_code_def)
  with assms show ?thesis by (metis atLeastAtMost_iff imageI)
qed

lemma hex_class_iff:
  "in_class False [CRange CHR ''a'' CHR ''f'', CRange CHR ''0'' CHR ''9''] c \<longleftrightarrow> lower_hex c"
proof
  assume "in_class False [CRange CHR ''a'' CHR ''f'', CRange CHR ''0'' CHR ''9''] c"
  then consider "97 \<le> char_code c \<and> char_code c \<le> 102" | "48 \<le> char_code c \<and> char_code c \<le> 57"
    by (auto simp: in_class_def char_code_def)
  then show "lower_hex c"
  proof cases
    case 1
    then have "char_code c \<in> {97, 98, 99, 100, 101, 102}" by simp arith
    then have "char_code c \<in> char_code ` set ''abcdef''" by (simp add: char_code_def)
    then have "c \<in> set ''abcdef''" by (auto simp: code_inj)
    then show ?thesis unfolding lower_hex_def by auto
  next
    case 2
    then have "char_code c \<in> {48, 49, 50, 51, 52, 53, 54, 55, 56, 57}" by simp arith
    then have "char_code c \<in> char_code ` set ''0123456789''" by (simp add: char_code_def)
    then have "c \<in> set ''0123456789''" by (auto simp: code_inj)
    then show ?thesis unfolding lower_hex_def by auto
  qed
next
  assume "lower_hex c"
  then show "in_class False [CRange CHR ''a'' CHR ''f'', CRange CHR ''0'' CHR ''9''] c"
    by (auto simp: lower_hex_def in_class_def char_code_def)
qed

lemma bol_fails: "match_at ic (Bol # ns) (Some c, rest) = None"
  by (simp add: match_at_def match_node_def)

lemma search_bol: "search ic (Bol # ns) (Some c, rest) = False"
  by (induction rest arbitrary: c) (simp_all add: bol_fails)

lemma regex_test_bol:
  "regex_test ic (Bol # ns) s \<longleftrightarrow> match_at ic (Bol # ns) (None, s) \<noteq> None"
  by (cases s) (simp_all add: regex_test_def search_bol)

lemma takeWhile_full: "length (takeWhile P xs) = length xs \<longleftrightarrow> list_all P xs"
  by (induction xs) (auto simp: list_all_iff)

lemma id_match:
  "match_at False CLOUDFLARE_ID_REGEX (None, s) \<noteq> None \<longleftrightarrow>
     length s = 32 \<and> list_all lower_hex s"
proof -
  let ?P = "in_class False [CRange CHR ''a'' CHR ''f'', CRange CHR ''0'' CHR ''9'']"
  let ?k = "length (takeWhile ?P (take 32 s))"
  have k_le: "?k \<le> 32"
    by (rule order_trans [OF length_takeWhile_le]) simp
  have P: "?P = lower_hex" by (rule ext) (rule hex_class_iff)
  show ?thesis
  proof (cases "?k = 32")
    case True
    then have len: "32 \<le> length s"
      using length_takeWhile_le [of ?P "take 32 s"] by simp
    then have "length (take 32 s) = 32" by simp
    with True have all: "list_all ?P (take 32 s)"
      using takeWhile_full [of ?P "take 32 s"] by simp
    have "match_seq False CLOUDFLARE_ID_REGEX (None, s) =
            (if drop 32 s = [] then [(Some (s ! 31), [])] else [])"
      using True by (simp add: CLOUDFLARE_ID_REGEX_def match_node_def Let_def)
    then have "match_at False CLOUDFLARE_ID_REGEX (None, s) \<noteq> None \<longleftrightarrow> drop 32 s = []"
      by (simp add: match_at_def)
    also have "\<dots> \<longleftrightarrow> length s = 32 \<and> list_all lower_hex s"
      using len all P by auto
    finally show ?thesis .
  next
    case False
    with k_le have lt: "?k < 32" by simp
    then have "rev [32 ..< Suc ?k] = []" by simp
    then have "match_seq False CLOUDFLARE_ID_REGEX (None, s) = []"
      by (simp add: CLOUDFLARE_ID_REGEX_def match_node_def Let_def)
    then have none: "match_at False CLOUDFLARE_ID_REGEX (None, s) = None"
      by (simp add: match_at_def)
    have "\<not> (length s = 32 \<and> list_all lower_hex s)"
    proof
      assume a: "length s = 32 \<and> list_all lower_hex s"
      then have "\<forall>x\<in>set s. lower_hex x" by (simp add: list_all_iff)
      then have "takeWhile lower_hex s = s" by simp
      with a False show False unfolding P by simp
    qed
    with none show ?thesis by simp
  qed
qed

text \<open>
  C6. The identifier schema, from which the zone, account, ruleset and rule schemas are
  made, accepts a string if and only if it is exactly 32 characters, each a digit or a
  letter from \<open>a\<close> to \<open>f\<close> in lower case. It rejects \<open>not-hex\<close> and a string of 31
  letters \<open>a\<close>. A call of a tool with a rejected identifier fails before the handler
  runs: it makes no request, whatever \<open>fetch\<close> would answer.
\<close>

theorem cloudflare_id_accepts_iff:
  "(cloudflareIdSchema s \<longleftrightarrow> length s = 32 \<and> list_all lower_hex s)
   \<and> \<not> cloudflareIdSchema ''not-hex''
   \<and> \<not> cloudflareIdSchema (replicate 31 CHR ''a'')
   \<and> (\<not> cloudflareIdSchema s \<longrightarrow>
        list_custom_rules_tool api fetch s w = (Inl id_format_message, w))"
proof -
  have iff: "cloudflareIdSchema t \<longleftrightarrow> length t = 32 \<and> list_all lower_hex t" for t
    unfolding cloudflareIdSchema_def CLOUDFLARE_ID_REGEX_def
    using regex_test_bol id_match by (simp add: CLOUDFLARE_ID_REGEX_def)
  have "\<not> cloudflareIdSchema s \<longrightarrow>
          list_custom_rules_tool api fetch s w = (Inl id_format_message, w)"
    by (simp add: list_custom_rules_tool_def call_tool_def)
  then show ?thesis by (simp add: iff)
qed

theorem cloudflare_id_accepts_iff_witness:
  "cloudflareIdSchema ''0123456789abcdef0123456789abcdef''
   \<and> \<not> cloudflareIdSchema ''0123456789ABCDEF0123456789ABCDEF''
   \<and> \<not> cloudflareIdSchema ''0123456789abcdef0123456789abcdef0''
   \<and> list_custom_rules_tool api0 (answering (ok null_ruleset)) ''not-hex'' ()
       = (Inl id_format_message, ())"
proof -
  note t = cloudflare_id_accepts_iff [where api = api0 and w = "()"
             and fetch = "answering (ok null_ruleset)"]
  from t [where s = "''0123456789abcdef0123456789abcdef''"]
       t [where s = "''0123456789ABCDEF0123456789ABCDEF''"]
       t [where s = "''0123456789abcdef0123456789abcdef0''"]
       t [where s = "''not-hex''"]
  show ?thesis by (simp add: lower_hex_def)
qed

section \<open>The request primitive\<close>

lemma request_cases:
  "request api fetch m path b w =
     (case fetch w (api_request api m path b) of
        (Threw msg, w') \<Rightarrow> (Inl (Error TransportError msg), w')
      | (Json data, w') \<Rightarrow>
          if success data then (Inr data, w')
          else (Inl (Error ApiError (''Cloudflare API error: '' @
                  sanitizeErrorMessage (join '', '' (map message (errors data))))), w'))"
  by (simp add: request_def Let_def split: prod.splits fetched.splits)

lemma request_Json:
  "fetch w (api_request api m path b) = (Json data, w') \<Longrightarrow>
   request api fetch m path b w =
     (if success data then (Inr data, w')
      else (Inl (Error ApiError (''Cloudflare API error: '' @
              sanitizeErrorMessage (join '', '' (map message (errors data))))), w'))"
  by (simp add: request_cases)

lemma request_Inr:
  "request api fetch m path b w = (Inr data, w') \<longleftrightarrow>
     fetch w (api_request api m path b) = (Json data, w') \<and> success data"
  by (auto simp: request_cases split: prod.splits fetched.splits if_splits)

lemma request_Inl:
  "request api fetch m path b w = (Inl e, w') \<longleftrightarrow>
     (\<exists>msg. fetch w (api_request api m path b) = (Threw msg, w') \<and> e = Error TransportError msg)
     \<or> (\<exists>data. fetch w (api_request api m path b) = (Json data, w') \<and> \<not> success data
           \<and> e = Error ApiError (''Cloudflare API error: '' @
                     sanitizeErrorMessage (join '', '' (map message (errors data)))))"
  by (auto simp: request_cases split: prod.splits fetched.splits if_splits)



section \<open>Rule updates\<close>

lemma find_None_ids: "find (\<lambda>r. rule_id r = i) xs = None \<longleftrightarrow> i \<notin> rule_id ` set xs"
  by (auto simp: find_None_iff)

text \<open>
  C3 (as amended). \<open>updateCustomRule\<close> looks the rule up by its identifier in the rule
  sequence of the ruleset returned by the \<open>PATCH\<close> request. It fails at that check, with
  the message \<open>Updated rule not found in response\<close>, if and only if the request
  succeeded and no rule of the returned sequence has the identifier; otherwise it
  returns the first rule of the sequence with that identifier.
\<close>

theorem updateCustomRule_locates_rule_by_id:
  "(fst (updateCustomRule api fetch zoneId rulesetId ruleId updates w)
      = Inl (Error ConsistencyError ''Updated rule not found in response'')
    \<longleftrightarrow> (\<exists>data w'. fetch w (api_request api PATCH (rule_path zoneId rulesetId ruleId)
                         (Updates updates)) = (Json data, w')
           \<and> success data \<and> ruleId \<notin> rule_id ` set (rules (result data))))
   \<and> (\<forall>data w' r.
         fetch w (api_request api PATCH (rule_path zoneId rulesetId ruleId) (Updates updates))
           = (Json data, w')
         \<and> success data \<and> find (\<lambda>r. rule_id r = ruleId) (rules (result data)) = Some r
         \<longrightarrow> updateCustomRule api fetch zoneId rulesetId ruleId updates w = (Inr r, w')
             \<and> rule_id r = ruleId \<and> r \<in> set (rules (result data)))"
proof (intro conjI allI impI)
  let ?rq = "api_request api PATCH (rule_path zoneId rulesetId ruleId) (Updates updates)"
  show "fst (updateCustomRule api fetch zoneId rulesetId ruleId updates w)
          = Inl (Error ConsistencyError ''Updated rule not found in response'')
        \<longleftrightarrow> (\<exists>data w'. fetch w ?rq = (Json data, w') \<and> success data
               \<and> ruleId \<notin> rule_id ` set (rules (result data)))"
  proof (cases "fetch w ?rq")
    case (Pair f w')
    then show ?thesis
      by (cases f)
         (auto simp: updateCustomRule_def request_cases find_None_ids [symmetric]
               split: option.splits)
  qed
next
  fix data w' r
  assume a: "fetch w (api_request api PATCH (rule_path zoneId rulesetId ruleId) (Updates updates))
               = (Json data, w')
             \<and> success data \<and> find (\<lambda>r. rule_id r = ruleId) (rules (result data)) = Some r"
  then show "updateCustomRule api fetch zoneId rulesetId ruleId updates w = (Inr r, w')"
    by (simp add: updateCustomRule_def request_cases)
  from a show "rule_id r = ruleId" by (auto simp: find_Some_iff)
  from a show "r \<in> set (rules (result data))" by (auto simp: find_Some_iff)
qed

theorem updateCustomRule_locates_rule_by_id_witness:
  "updateCustomRule api0
     (answering (ok (null_ruleset\<lparr>rules := [new_rule ''r1'' rule0, new_rule ''r2'' rule0]\<rparr>)))
     ''z'' ''s'' ''r2'' no_updates () = (Inr (new_rule ''r2'' rule0), ())
   \<and> fst (updateCustomRule api0 (answering (ok null_ruleset)) ''z'' ''s'' ''r2'' no_updates ())
       = Inl (Error ConsistencyError ''Updated rule not found in response'')"
proof
  let ?d = "ok (null_ruleset\<lparr>rules := [new_rule ''r1'' rule0, new_rule ''r2'' rule0]\<rparr>)"
  have "find (\<lambda>r. rule_id r = ''r2'') (rules (result ?d)) = Some (new_rule ''r2'' rule0)"
    by (simp add: ok_def new_rule_def)
  moreover have "success ?d" by (simp add: ok_def)
  ultimately show "updateCustomRule api0 (answering ?d) ''z'' ''s'' ''r2'' no_updates ()
                     = (Inr (new_rule ''r2'' rule0), ())"
    using updateCustomRule_locates_rule_by_id [of api0 "answering ?d" "''z''" "''s''" "''r2''" no_updates "()"]
    by (simp add: answering_def)
  have "success (ok null_ruleset) \<and> ''r2'' \<notin> rule_id ` set (rules (result (ok null_ruleset)))"
    by (simp add: ok_def null_ruleset_def)
  then show "fst (updateCustomRule api0 (answering (ok null_ruleset)) ''z'' ''s'' ''r2'' no_updates ())
       = Inl (Error ConsistencyError ''Updated rule not found in response'')"
    using updateCustomRule_locates_rule_by_id [of api0 "answering (ok null_ruleset)" "''z''" "''s''" "''r2''" no_updates "()"]
    by (simp add: answering_def)
qed

theorem updateCustomRule_message_counterexample:
  "''r2'' \<notin> rule_id ` set (rules (result (ok null_ruleset)))
   \<and> fst (updateCustomRule api0 (answering (ok null_ruleset)) ''z'' ''s'' ''r2'' no_updates ())
       = Inl (Error ConsistencyError ''Updated rule not found in response'')
   \<and> fst (updateCustomRule api0 (answering (ok null_ruleset)) ''z'' ''s'' ''r2'' no_updates ())
       \<noteq> Inl (Error ConsistencyError ''updated rule not found in response'')"
  by (simp add: updateCustomRule_def request_cases answering_def ok_def null_ruleset_def)

section \<open>Rule creation: the value returned\<close>

text \<open>
  C4 (as amended). A successful \<open>createCustomRule\<close> returns the element at the last
  position of the rule sequence of the ruleset that the append request returned. When
  that sequence is not empty, this is its last rule.
\<close>

theorem createCustomRule_returns_last_rule:
  assumes "createCustomRule api fetch zoneId rule w = (Inr v, w')"
  shows "\<exists>rulesetId w2 data.
           get_or_create_ruleset api fetch zoneId w = (Inr rulesetId, w2)
           \<and> fetch w2 (api_request api POST (rules_path zoneId rulesetId) (NewRule rule))
               = (Json data, w')
           \<and> success data
           \<and> v = last_element (rules (result data))
           \<and> (rules (result data) \<noteq> [] \<longrightarrow> v = Some (last (rules (result data))))"
proof -
  obtain x w2 where g: "get_or_create_ruleset api fetch zoneId w = (x, w2)"
    by (cases "get_or_create_ruleset api fetch zoneId w")
  with assms obtain rulesetId where x: "x = Inr rulesetId"
    by (cases x) (auto simp: createCustomRule_def)
  obtain y w3 where r: "request api fetch POST (rules_path zoneId rulesetId) (NewRule rule) w2
                          = (y, w3)"
    by (cases "request api fetch POST (rules_path zoneId rulesetId) (NewRule rule) w2")
  with assms g x obtain data where y: "y = Inr data"
    by (cases y) (auto simp: createCustomRule_def)
  from assms g x r y have v: "v = last_element (rules (result data))" and w: "w3 = w'"
    by (auto simp: createCustomRule_def)
  from r y w have f: "fetch w2 (api_request api POST (rules_path zoneId rulesetId) (NewRule rule))
                        = (Json data, w') \<and> success data"
    by (simp add: request_Inr)
  have "rules (result data) \<noteq> [] \<longrightarrow> v = Some (last (rules (result data)))"
    by (simp add: v last_element_def last_conv_nth)
  with g x f v show ?thesis by blast
qed

theorem createCustomRule_returns_last_rule_witness:
  "createCustomRule api0
     (answering (ok (null_ruleset\<lparr>rules := [new_rule ''r1'' rule0, new_rule ''r2'' rule0]\<rparr>)))
     ''z'' rule0 () = (Inr (Some (new_rule ''r2'' rule0)), ())
   \<and> (\<exists>rulesetId w2 data.
         answering (ok (null_ruleset\<lparr>rules := [new_rule ''r1'' rule0, new_rule ''r2'' rule0]\<rparr>)) w2 (api_request api0 POST (rules_path ''z'' rulesetId) (NewRule rule0))
           = (Json data, ())
         \<and> success data
         \<and> Some (new_rule ''r2'' rule0) = Some (last (rules (result data))))"
proof -
  let ?d = "ok (null_ruleset\<lparr>rules := [new_rule ''r1'' rule0, new_rule ''r2'' rule0]\<rparr>)"
  have c: "createCustomRule api0 (answering ?d) ''z'' rule0 ()
             = (Inr (Some (new_rule ''r2'' rule0)), ())"
    by (simp add: createCustomRule_def get_or_create_ruleset_def getEntryPointRuleset_def
          request_cases answering_def ok_def last_element_def)
  from createCustomRule_returns_last_rule [OF c]
  obtain rulesetId w2 data where
    f: "answering ?d w2 (api_request api0 POST (rules_path ''z'' rulesetId) (NewRule rule0))
          = (Json data, ())"
    and s: "success data"
    and l: "rules (result data) \<noteq> [] \<longrightarrow>
            Some (new_rule ''r2'' rule0) = Some (last (rules (result data)))"
    by blast
  from f have "data = ?d" by (simp add: answering_def)
  then have "rules (result data) \<noteq> []" by (simp add: ok_def)
  with l have "Some (new_rule ''r2'' rule0) = Some (last (rules (result data)))" by simp
  with c f s show ?thesis by blast
qed

theorem createCustomRule_empty_rules_counterexample:
  "success (ok null_ruleset) \<and> rules (result (ok null_ruleset)) = []
   \<and> createCustomRule api0 (answering (ok null_ruleset)) ''z'' rule0 () = (Inr None, ())"
  by (simp add: createCustomRule_def get_or_create_ruleset_def getEntryPointRuleset_def
        request_cases answering_def ok_def null_ruleset_def last_element_def)

section \<open>Listing the custom rules of a zone\<close>

text \<open>
  C10. When the fetch of the entry-point ruleset inside \<open>list_custom_rules\<close> fails with
  a message that contains \<open>404\<close> or \<open>not found\<close>, the tool returns the text of
  \<open>{rules: [], message: "No custom rules configured for this zone"}\<close>; a failure with
  neither substring is thrown again as it is.
\<close>

theorem list_custom_rules_not_found:
  assumes "getEntryPointRuleset api fetch zoneId ''http_request_firewall_custom'' w = (Inl err, w')"
  shows "(str_includes (error_message err) ''404'' \<or> str_includes (error_message err) ''not found''
            \<longrightarrow> list_custom_rules api fetch zoneId w
                  = (Inr [JsonText (NoRules [] ''No custom rules configured for this zone'')], w'))
         \<and> (\<not> str_includes (error_message err) ''404''
            \<and> \<not> str_includes (error_message err) ''not found''
            \<longrightarrow> list_custom_rules api fetch zoneId w = (Inl err, w'))"
  using assms by (simp add: list_custom_rules_def)

lemma sanitize_404: "sanitizeErrorMessage ''404'' = ''404''"
  by code_simp

lemma sanitize_denied: "sanitizeErrorMessage ''denied'' = ''denied''"
  by code_simp

theorem list_custom_rules_not_found_witness:
  "list_custom_rules api0 (answering (failed 10003 ''404'')) ''z'' ()
     = (Inr [JsonText (NoRules [] ''No custom rules configured for this zone'')], ())
   \<and> list_custom_rules api0 (answering (failed 10000 ''denied'')) ''z'' ()
     = (Inl (Error ApiError ''Cloudflare API error: denied''), ())"
proof
  have a: "getEntryPointRuleset api0 (answering (failed 10003 ''404'')) ''z''
             ''http_request_firewall_custom'' ()
           = (Inl (Error ApiError ''Cloudflare API error: 404''), ())"
    by (simp add: getEntryPointRuleset_def request_cases answering_def failed_def sanitize_404)
  have "str_includes ''Cloudflare API error: 404'' ''404''" by code_simp
  with list_custom_rules_not_found [OF a]
  show "list_custom_rules api0 (answering (failed 10003 ''404'')) ''z'' ()
          = (Inr [JsonText (NoRules [] ''No custom rules configured for this zone'')], ())"
    by simp
  have b: "getEntryPointRuleset api0 (answering (failed 10000 ''denied'')) ''z''
             ''http_request_firewall_custom'' ()
           = (Inl (Error ApiError ''Cloudflare API error: denied''), ())"
    by (simp add: getEntryPointRuleset_def request_cases answering_def failed_def
          sanitize_denied)
  have "\<not> str_includes ''Cloudflare API error: denied'' ''404''"
       "\<not> str_includes ''Cloudflare API error: denied'' ''not found''"
    by code_simp+
  with list_custom_rules_not_found [OF b]
  show "list_custom_rules api0 (answering (failed 10000 ''denied'')) ''z'' ()
          = (Inl (Error ApiError ''Cloudflare API error: denied''), ())"
    by simp
qed

section \<open>Security events summary: no events\<close>

lemma graphqlRequest_cases:
  "graphqlRequest api fetch query variables w =
     (case fetch w (api_request api POST [''graphql''] (GraphQL query variables)) of
        (Threw msg, w') \<Rightarrow> (Inl (Error TransportError msg), w')
      | (Json data, w') \<Rightarrow>
          if gql_errors data = None \<or> gql_errors data = Some [] then (Inr (gql_data data), w')
          else (Inl (Error ApiError (''GraphQL error: '' @
                  sanitizeErrorMessage (join '', '' (the (gql_errors data))))), w'))"
  by (auto simp: graphqlRequest_def Let_def split: prod.splits fetched.splits option.splits list.splits)

text \<open>
  C9. When the provider reports no error and returns no zone data, or a first zone with no
  groups, \<open>getSecurityEventsSummary\<close> returns three empty lists. It fails if and only if
  \<open>fetch\<close> throws or the response has a non-empty list of errors, and every failure raised
  from a response comes from such a list.
\<close>

theorem summary_of_no_events:
  "(\<forall>data w'. fetch w (summary_request api zoneTag start end') = (Json data, w')
        \<and> (gql_errors data = None \<or> gql_errors data = Some [])
        \<and> no_events (gql_data data)
      \<longrightarrow> getSecurityEventsSummary api fetch zoneTag start end' w = (Inr empty_summary, w'))
   \<and> ((\<exists>e. fst (getSecurityEventsSummary api fetch zoneTag start end' w) = Inl e)
        \<longleftrightarrow> (\<exists>msg w'. fetch w (summary_request api zoneTag start end') = (Threw msg, w'))
            \<or> (\<exists>data w' m ms. fetch w (summary_request api zoneTag start end') = (Json data, w')
                  \<and> gql_errors data = Some (m # ms)))
   \<and> (\<forall>e. fst (getSecurityEventsSummary api fetch zoneTag start end' w) = Inl e
          \<and> kind_of e = ApiError
        \<longrightarrow> (\<exists>data w' m ms. fetch w (summary_request api zoneTag start end') = (Json data, w')
                  \<and> gql_errors data = Some (m # ms)))"
proof -
  obtain f w' where f: "fetch w (summary_request api zoneTag start end') = (f, w')"
    by (cases "fetch w (summary_request api zoneTag start end')")
  show ?thesis
  proof (cases f)
    case (Threw msg)
    with f show ?thesis
      by (simp add: getSecurityEventsSummary_def graphqlRequest_cases
            summary_request_def [symmetric])
  next
    case (Json data)
    show ?thesis
    proof (cases "gql_errors data = None \<or> gql_errors data = Some []")
      case True
      with f Json show ?thesis
        by (auto simp: getSecurityEventsSummary_def graphqlRequest_cases
              summary_request_def [symmetric] no_events_def empty_summary_def Let_def
              split: list.splits)
    next
      case False
      then obtain m ms where "gql_errors data = Some (m # ms)"
        by (cases "gql_errors data") (auto simp: neq_Nil_conv)
      with f Json show ?thesis
        by (simp add: getSecurityEventsSummary_def graphqlRequest_cases
              summary_request_def [symmetric])
    qed
  qed
qed

theorem summary_of_no_events_witness:
  "getSecurityEventsSummary api0 (answering (gql_ok \<lparr>viewer_zones = []\<rparr>)) ''z'' ''s'' ''e'' ()
     = (Inr empty_summary, ())
   \<and> getSecurityEventsSummary api0
        (answering (gql_ok \<lparr>viewer_zones = [\<lparr>z_byAction = [], z_bySource = [], z_byCountry = []\<rparr>]\<rparr>))
        ''z'' ''s'' ''e'' ()
     = (Inr empty_summary, ())"
proof
  show "getSecurityEventsSummary api0 (answering (gql_ok \<lparr>viewer_zones = []\<rparr>)) ''z'' ''s'' ''e'' ()
     = (Inr empty_summary, ())"
    using summary_of_no_events [of "answering (gql_ok \<lparr>viewer_zones = []\<rparr>)" "()" api0 "''z''" "''s''" "''e''"]
    by (simp add: answering_def gql_ok_def no_events_def)
  show "getSecurityEventsSummary api0
        (answering (gql_ok \<lparr>viewer_zones = [\<lparr>z_byAction = [], z_bySource = [], z_byCountry = []\<rparr>]\<rparr>))
        ''z'' ''s'' ''e'' ()
     = (Inr empty_summary, ())"
    using summary_of_no_events [of "answering (gql_ok \<lparr>viewer_zones = [\<lparr>z_byAction = [], z_bySource = [], z_byCountry = []\<rparr>]\<rparr>)" "()" api0 "''z''" "''s''" "''e''"]
    by (simp add: answering_def gql_ok_def no_events_def)
qed

section \<open>Failures leaving the API client\<close>

lemma request_failure:
  assumes "request api fetch m path b w = (Inl e, w')"
  shows "(\<exists>w0 rq w1 msg. fetch w0 rq = (Threw msg, w1) \<and> e = Error TransportError msg)
         \<or> (\<exists>w0 rq w1 data. fetch w0 rq = (Json data, w1) \<and> \<not> success data
               \<and> e = Error ApiError (''Cloudflare API error: '' @
                        sanitizeErrorMessage (join '', '' (map message (errors data)))))"
  using assms unfolding request_Inl by blast










section \<open>The time range of the analytics tools\<close>

lemma TimeClip_valid:
  assumes "\<bar>t\<bar> \<le> 8640000000000000"
  shows "TimeClip t = Some (if 0 \<le> t then \<lfloor>t\<rfloor> else \<lceil>t\<rceil>)"
  using assms by (simp add: TimeClip_def)

text \<open>
  C8 (as amended). For a number of minutes \<open>n\<close> that the analytics tools accept, the
  helper returns the invocation time as \<open>endTime\<close>; when \<open>n\<close> minutes are a whole number
  of milliseconds, \<open>startTime\<close> is \<open>endTime\<close> minus exactly \<open>n\<close> times 60 seconds, for
  \<open>n = 60\<close> exactly 3600 seconds. The helper does not clamp; on accepted values this
  cannot be told from clamping to the range from 1 to 1440. Times are in milliseconds.
\<close>

theorem getTimeRange_window:
  assumes "minutes_schema n" and "0 \<le> now" and "now \<le> 8640000000000000"
  shows "\<exists>r. getTimeRange n now = Some r
           \<and> endTime r = now
           \<and> (n * 60 * 1000 \<in> \<int> \<longrightarrow> of_int (endTime r - startTime r) = n * 60 * 1000)
           \<and> (n = 60 \<longrightarrow> endTime r - startTime r = 3600 * 1000)
           \<and> getTimeRange (max 1 (min 1440 n)) now = Some r"
proof -
  let ?x = "n * 60 * 1000"
  let ?t = "of_int now - ?x"
  from assms(1) have x: "0 \<le> ?x" "?x \<le> 86400000"
    by (simp_all add: minutes_schema_def)
  from assms(2,3) have now: "(0::rat) \<le> of_int now" "(of_int now :: rat) \<le> 8640000000000000"
    by (simp, metis of_int_le_iff of_int_numeral)
  from x now have "\<bar>?t\<bar> \<le> 8640000000000000" by (simp add: abs_le_iff)
  then have clip: "TimeClip ?t = Some (if 0 \<le> ?t then \<lfloor>?t\<rfloor> else \<lceil>?t\<rceil>)"
    by (rule TimeClip_valid)
  let ?r = "\<lparr>startTime = (if 0 \<le> ?t then \<lfloor>?t\<rfloor> else \<lceil>?t\<rceil>), endTime = now\<rparr>"
  have g: "getTimeRange n now = Some ?r"
    by (simp only: getTimeRange_def clip option.case)
  have int: "of_int (endTime ?r - startTime ?r) = ?x" if "?x \<in> \<int>"
  proof -
    from that obtain k :: int where k: "?x = of_int k" by (auto elim: Ints_cases)
    then have "?t = of_int (now - k)" by simp
    then have "\<lfloor>?t\<rfloor> = now - k" "\<lceil>?t\<rceil> = now - k" by (simp_all only: floor_of_int ceiling_of_int)
    then show ?thesis by (simp add: k)
  qed
  have sixty: "endTime ?r - startTime ?r = 3600 * 1000" if "n = 60"
  proof -
    have "?x \<in> \<int>" by (simp add: that)
    from int [OF this] have "(of_int (endTime ?r - startTime ?r) :: rat) = of_int 3600000"
      by (simp add: that)
    then show ?thesis by (simp only: of_int_eq_iff)
  qed
  from assms(1) have "max 1 (min 1440 n) = n" by (simp add: minutes_schema_def)
  with g int sixty show ?thesis by (intro exI [of _ ?r]) simp
qed

theorem getTimeRange_window_witness:
  "\<exists>r. getTimeRange 60 1700000000000 = Some r \<and> endTime r = 1700000000000
        \<and> endTime r - startTime r = 3600 * 1000"
proof -
  have "minutes_schema 60" by (simp add: minutes_schema_def)
  from getTimeRange_window [OF this, of 1700000000000] show ?thesis by auto
qed

theorem getTimeRange_fraction_counterexample:
  "minutes_schema (1025 / 1024)
   \<and> getTimeRange (1025 / 1024) 1700000000000
       = Some \<lparr>startTime = 1699999939941, endTime = 1700000000000\<rparr>
   \<and> (of_int (1700000000000 - 1699999939941) :: rat) \<noteq> (1025 / 1024) * 60 * 1000"
  by (simp add: minutes_schema_def getTimeRange_def TimeClip_def floor_eq_iff)

section \<open>The reference provider\<close>

lemma request_backend:
  "request api (backend_fetch nf) m path bd b =
     (case route nf b (api_request api m path bd) of
        (data, b') \<Rightarrow>
          if success data then (Inr data, b')
          else (Inl (Error ApiError (''Cloudflare API error: '' @
                  sanitizeErrorMessage (join '', '' (map message (errors data))))), b'))"
  by (simp add: request_cases backend_fetch_def split: prod.splits)

lemma route_patch:
  "route nf b (api_request api PATCH (rule_path zoneId rulesetId ruleId) (Updates u))
     = patch_rule b (encodeURIComponent zoneId) (encodeURIComponent rulesetId)
         (encodeURIComponent ruleId) u"
  by (simp add: route_def api_request_def rule_path_def)

lemma route_entrypoint:
  "route nf b (api_request api GET (entrypoint_path zoneId phase) NoBody)
     = get_entrypoint nf b (encodeURIComponent zoneId) (encodeURIComponent phase)"
  by (simp add: route_def api_request_def entrypoint_path_def)

lemma route_create:
  "route nf b (api_request api POST (rulesets_path zoneId) (NewRuleset name kind phase fs))
     = create_ruleset b (encodeURIComponent zoneId) name kind phase fs"
  by (simp add: route_def api_request_def rulesets_path_def)

lemma route_append:
  "route nf b (api_request api POST (rules_path zoneId rulesetId) (NewRule f))
     = append_rule b (encodeURIComponent zoneId) (encodeURIComponent rulesetId) f"
  by (simp add: route_def api_request_def rules_path_def)

lemma find_map_id:
  assumes "\<And>x. rule_id (g x) = rule_id x"
  shows "find (\<lambda>x. rule_id x = i) (map g xs) = map_option g (find (\<lambda>x. rule_id x = i) xs)"
  using assms by (induction xs) simp_all

lemma apply_updates_id: "rule_id (apply_updates u x) = rule_id x"
  by (simp add: apply_updates_def)

lemma apply_only_enabled:
  "apply_updates (only_enabled on) x = x\<lparr>enabled := on\<rparr>"
  by (simp add: apply_updates_def only_enabled_def no_updates_def)

text \<open>
  C5. On the reference provider, \<open>updateCustomRule\<close> with an update that has only
  \<open>enabled\<close>, which is the call \<open>toggle_rule\<close> makes, returns the rule with its
  description, expression and action as they were before the call, and \<open>toggle_rule\<close>
  answers with the success message that names the rule.
\<close>

theorem toggle_leaves_other_fields:
  assumes "find (\<lambda>s. encodeURIComponent (rs_id s) = encodeURIComponent rulesetId)
             (rulesets_of b (encodeURIComponent zoneId)) = Some rs"
      and "find (\<lambda>x. rule_id x = ruleId) (rules rs) = Some r"
  shows "\<exists>r' b'. updateCustomRule api (backend_fetch nf) zoneId rulesetId ruleId
                     (only_enabled on) b = (Inr r', b')
           \<and> description r' = description r \<and> expression r' = expression r
           \<and> action r' = action r \<and> enabled r' = on \<and> rule_id r' = ruleId
           \<and> toggle_rule api (backend_fetch nf) zoneId rulesetId ruleId on b
               = ([Text (''Successfully '' @ (if on then ''enabled'' else ''disabled'')
                         @ '' rule '' @ ruleId)], b')"
proof -
  let ?sel = "\<lambda>x. encodeURIComponent (rule_id x) = encodeURIComponent ruleId"
  let ?g = "\<lambda>x. if ?sel x then apply_updates (only_enabled on) x else x"
  let ?hit = "\<lambda>s. encodeURIComponent (rs_id s) = encodeURIComponent rulesetId"
  let ?upd = "\<lambda>s. s\<lparr>rules := map ?g (rules s)\<rparr>"
  let ?b' = "b\<lparr>rulesets_of := (rulesets_of b)(encodeURIComponent zoneId :=
               map (\<lambda>s. if ?hit s then ?upd s else s) (rulesets_of b (encodeURIComponent zoneId)))\<rparr>"
  from assms(2) have r: "r \<in> set (rules rs)" "rule_id r = ruleId"
    by (auto simp: find_Some_iff)
  then have ex: "list_ex ?sel (rules rs)" by (auto simp: list_ex_iff)
  have patch: "patch_rule b (encodeURIComponent zoneId) (encodeURIComponent rulesetId)
                 (encodeURIComponent ruleId) (only_enabled on) = (ok (?upd rs), ?b')"
    using assms(1) ex by (simp add: patch_rule_def Let_def)
  have gid: "rule_id (?g x) = rule_id x" for x by (simp add: apply_updates_id)
  have "find (\<lambda>x. rule_id x = ruleId) (map ?g (rules rs)) = map_option ?g (Some r)"
    using find_map_id [of ?g ruleId "rules rs", OF gid] assms(2) by simp
  also have "\<dots> = Some (r\<lparr>enabled := on\<rparr>)"
    using r(2) by (simp add: apply_only_enabled)
  finally have found: "find (\<lambda>x. rule_id x = ruleId) (rules (result (ok (?upd rs))))
                         = Some (r\<lparr>enabled := on\<rparr>)"
    by (simp add: ok_def)
  have upd: "updateCustomRule api (backend_fetch nf) zoneId rulesetId ruleId (only_enabled on) b
               = (Inr (r\<lparr>enabled := on\<rparr>), ?b')"
    unfolding updateCustomRule_def request_backend route_patch patch
    using found by (simp add: ok_def)
  have same: "\<lparr>upd_description = None, upd_expression = None, upd_action = None,
               upd_enabled = Some on\<rparr> = only_enabled on"
    by (simp add: only_enabled_def no_updates_def)
  have tog: "toggle_rule api (backend_fetch nf) zoneId rulesetId ruleId on b
               = ([Text (''Successfully '' @ (if on then ''enabled'' else ''disabled'')
                         @ '' rule '' @ ruleId)], ?b')"
    unfolding toggle_rule_def same upd by simp
  from upd tog r(2) show ?thesis by simp
qed

theorem toggle_leaves_other_fields_witness:
  "\<exists>r' b'. updateCustomRule api0 (backend_fetch ''nf'') ''z'' ''s'' ''r1''
              (only_enabled True) seeded_backend = (Inr r', b')
     \<and> description r' = ''d'' \<and> expression r' = ''e'' \<and> action r' = ''block''
     \<and> enabled r' = True \<and> rule_id r' = ''r1''
     \<and> toggle_rule api0 (backend_fetch ''nf'') ''z'' ''s'' ''r1'' True seeded_backend
         = ([Text ''Successfully enabled rule r1''], b')"
proof -
  let ?rs = "null_ruleset\<lparr>rs_id := ''s'', rules := [(new_rule ''r1'' rule0)\<lparr>enabled := False\<rparr>]\<rparr>"
  let ?r = "(new_rule ''r1'' rule0)\<lparr>enabled := False\<rparr>"
  have 1: "find (\<lambda>s. encodeURIComponent (rs_id s) = encodeURIComponent ''s'')
             (rulesets_of seeded_backend (encodeURIComponent ''z'')) = Some ?rs"
    by (simp add: seeded_backend_def)
  have 2: "find (\<lambda>x. rule_id x = ''r1'') (rules ?rs) = Some ?r"
    by (simp add: new_rule_def)
  from toggle_leaves_other_fields [OF 1 2, of api0 "''nf''" True]
  show ?thesis by (simp add: new_rule_def rule0_def)
qed

section \<open>Rule creation on the reference provider\<close>

lemma enc_custom:
  "encodeURIComponent ''http_request_firewall_custom'' = ''http_request_firewall_custom''"
  by code_simp

lemma filter_phase_map:
  assumes "\<And>x. rs_phase (g x) = rs_phase x"
  shows "filter (\<lambda>r. encodeURIComponent (rs_phase r) = p) (map g xs)
           = map g (filter (\<lambda>r. encodeURIComponent (rs_phase r) = p) xs)"
  using assms by (induction xs) simp_all

lemma appended_phase: "rs_phase (appended b rs f r) = rs_phase r"
  by (simp add: appended_def)

lemma append_rule_hit:
  assumes "s \<in> set (rulesets_of b zone)" and "encodeURIComponent (rs_id s) = rs"
  shows "\<exists>s0. append_rule b zone rs f =
           (ok (s0\<lparr>rules := rules s0 @ [new_rule (fresh_id (next_id b)) f]\<rparr>),
            b\<lparr>rulesets_of := (rulesets_of b)(zone := map (appended b rs f) (rulesets_of b zone)),
              next_id := next_id b + 1\<rparr>)"
proof -
  from assms have "find (\<lambda>r. encodeURIComponent (rs_id r) = rs) (rulesets_of b zone) \<noteq> None"
    by (auto simp: find_None_iff)
  then obtain s0 where "find (\<lambda>r. encodeURIComponent (rs_id r) = rs) (rulesets_of b zone) = Some s0"
    by auto
  then have "append_rule b zone rs f =
           (ok (s0\<lparr>rules := rules s0 @ [new_rule (fresh_id (next_id b)) f]\<rparr>),
            b\<lparr>rulesets_of := (rulesets_of b)(zone := map (appended b rs f) (rulesets_of b zone)),
              next_id := next_id b + 1\<rparr>)"
    by (simp add: append_rule_def Let_def appended_def [abs_def])
  then show ?thesis ..
qed

lemma entry_points_appended:
  "entry_points (b\<lparr>rulesets_of := (rulesets_of b)(zone := map (appended b0 rs f) (rulesets_of b zone)),
                  next_id := n\<rparr>) z p
     = map (appended b0 rs f) (entry_points b z p) \<or>
   entry_points (b\<lparr>rulesets_of := (rulesets_of b)(zone := map (appended b0 rs f) (rulesets_of b zone)),
                  next_id := n\<rparr>) z p
     = entry_points b z p"
  by (cases "z = zone") (simp_all add: entry_points_def filter_phase_map appended_phase)

lemma entry_points_appended_same:
  "entry_points (b\<lparr>rulesets_of := (rulesets_of b)(zone := map (appended b0 rs f) (rulesets_of b zone)),
                  next_id := n\<rparr>) zone p
     = map (appended b0 rs f) (entry_points b zone p)"
  by (simp add: entry_points_def filter_phase_map appended_phase)

lemma get_entrypoint_none:
  assumes "entry_points b (encodeURIComponent zoneId) ''http_request_firewall_custom'' = []"
  shows "getEntryPointRuleset api (backend_fetch nf) zoneId ''http_request_firewall_custom'' b
           = (Inl (Error ApiError (surfaced nf)), b)"
  using assms
  by (simp add: getEntryPointRuleset_def request_backend route_entrypoint get_entrypoint_def
        enc_custom failed_def surfaced_def)

lemma get_entrypoint_some:
  assumes "entry_points b (encodeURIComponent zoneId) ''http_request_firewall_custom'' = r # rest"
  shows "getEntryPointRuleset api (backend_fetch nf) zoneId ''http_request_firewall_custom'' b
           = (Inr r, b)"
  using assms
  by (simp add: getEntryPointRuleset_def request_backend route_entrypoint get_entrypoint_def
        enc_custom ok_def)

lemma get_or_create_fresh:
  assumes "entry_points b (encodeURIComponent zoneId) ''http_request_firewall_custom'' = []"
      and "recognised nf"
  shows "get_or_create_ruleset api (backend_fetch nf) zoneId b
           = (Inr (fresh_id (next_id b)), with_created b (encodeURIComponent zoneId))"
  using assms(2)
  by (simp add: get_or_create_ruleset_def get_entrypoint_none [OF assms(1)] recognised_def
        request_backend route_create create_ruleset_def ok_def with_created_def created_def
        Let_def)

lemma get_or_create_unseen:
  assumes "entry_points b (encodeURIComponent zoneId) ''http_request_firewall_custom'' = []"
      and "\<not> recognised nf"
  shows "get_or_create_ruleset api (backend_fetch nf) zoneId b
           = (Inl (Error ApiError (surfaced nf)), b)"
  using assms(2)
  by (simp add: get_or_create_ruleset_def get_entrypoint_none [OF assms(1)] recognised_def)

lemma get_or_create_existing:
  assumes "entry_points b (encodeURIComponent zoneId) ''http_request_firewall_custom'' = r # rest"
  shows "get_or_create_ruleset api (backend_fetch nf) zoneId b = (Inr (rs_id r), b)"
  by (simp add: get_or_create_ruleset_def get_entrypoint_some [OF assms])

lemma append_step:
  assumes "get_or_create_ruleset api (backend_fetch nf) zoneId b = (Inr i, b')"
      and "s \<in> set (rulesets_of b' (encodeURIComponent zoneId))"
      and "rs_id s = i"
  shows "createCustomRule api (backend_fetch nf) zoneId rule b =
           (Inr (Some (new_rule (fresh_id (next_id b')) rule)),
            b'\<lparr>rulesets_of := (rulesets_of b')(encodeURIComponent zoneId :=
                   map (appended b' (encodeURIComponent i) rule)
                     (rulesets_of b' (encodeURIComponent zoneId))),
               next_id := next_id b' + 1\<rparr>)"
proof -
  from assms(2,3) have "encodeURIComponent (rs_id s) = encodeURIComponent i" by simp
  from append_rule_hit [OF assms(2) this, of rule]
  obtain s0 where "append_rule b' (encodeURIComponent zoneId) (encodeURIComponent i) rule =
           (ok (s0\<lparr>rules := rules s0 @ [new_rule (fresh_id (next_id b')) rule]\<rparr>),
            b'\<lparr>rulesets_of := (rulesets_of b')(encodeURIComponent zoneId :=
                   map (appended b' (encodeURIComponent i) rule)
                     (rulesets_of b' (encodeURIComponent zoneId))),
               next_id := next_id b' + 1\<rparr>)"
    by (elim exE)
  then show ?thesis
    by (simp add: createCustomRule_def assms(1) request_backend route_append ok_def
          last_element_def)
qed

lemma createCustomRule_fresh:
  assumes "entry_points b (encodeURIComponent zoneId) ''http_request_firewall_custom'' = []"
      and "recognised nf"
  shows "createCustomRule api (backend_fetch nf) zoneId rule b =
           (Inr (Some (new_rule (fresh_id (next_id b + 1)) rule)),
            (with_created b (encodeURIComponent zoneId))
              \<lparr>rulesets_of := (rulesets_of (with_created b (encodeURIComponent zoneId)))
                 (encodeURIComponent zoneId :=
                   map (appended (with_created b (encodeURIComponent zoneId))
                          (encodeURIComponent (fresh_id (next_id b))) rule)
                     (rulesets_of (with_created b (encodeURIComponent zoneId))
                        (encodeURIComponent zoneId))),
               next_id := next_id b + 2\<rparr>)"
proof -
  let ?b' = "with_created b (encodeURIComponent zoneId)"
  have 1: "created b \<in> set (rulesets_of ?b' (encodeURIComponent zoneId))"
    by (simp add: with_created_def)
  have 2: "rs_id (created b) = fresh_id (next_id b)" by (simp add: created_def)
  have 3: "next_id ?b' = next_id b + 1" by (simp add: with_created_def)
  from append_step [OF get_or_create_fresh [OF assms] 1 2, where rule = rule] show ?thesis
    by (simp add: 3)
qed

lemma createCustomRule_existing:
  assumes "entry_points b (encodeURIComponent zoneId) ''http_request_firewall_custom'' = r # rest"
  shows "createCustomRule api (backend_fetch nf) zoneId rule b =
           (Inr (Some (new_rule (fresh_id (next_id b)) rule)),
            b\<lparr>rulesets_of := (rulesets_of b)(encodeURIComponent zoneId :=
                   map (appended b (encodeURIComponent (rs_id r)) rule)
                     (rulesets_of b (encodeURIComponent zoneId))),
               next_id := next_id b + 1\<rparr>)"
proof -
  have "r \<in> set (entry_points b (encodeURIComponent zoneId) ''http_request_firewall_custom'')"
    by (simp add: assms)
  then have 1: "r \<in> set (rulesets_of b (encodeURIComponent zoneId))"
    by (simp add: entry_points_def)
  from append_step [OF get_or_create_existing [OF assms] 1 refl, where rule = rule] show ?thesis .
qed

lemma createCustomRule_unseen:
  assumes "entry_points b (encodeURIComponent zoneId) ''http_request_firewall_custom'' = []"
      and "\<not> recognised nf"
  shows "createCustomRule api (backend_fetch nf) zoneId rule b
           = (Inl (Error ApiError (surfaced nf)), b)"
  by (simp add: createCustomRule_def get_or_create_unseen [OF assms])

lemma entry_points_with_created:
  "entry_points (with_created b zone) zone ''http_request_firewall_custom''
     = entry_points b zone ''http_request_firewall_custom'' @ [created b]"
  by (simp add: entry_points_def with_created_def created_def enc_custom)

lemma entry_points_fresh_result:
  assumes "entry_points b zone ''http_request_firewall_custom'' = []"
  shows "entry_points
           ((with_created b zone)
              \<lparr>rulesets_of := (rulesets_of (with_created b zone))
                 (zone := map (appended (with_created b zone)
                                 (encodeURIComponent (fresh_id (next_id b))) rule)
                            (rulesets_of (with_created b zone) zone)),
               next_id := n\<rparr>) zone ''http_request_firewall_custom''
         = [(created b)\<lparr>rules := [new_rule (fresh_id (next_id b + 1)) rule]\<rparr>]"
  by (simp add: entry_points_appended_same entry_points_with_created assms)
     (simp add: appended_def created_def with_created_def)

lemma length_entry_points_appended:
  "length (entry_points (b\<lparr>rulesets_of := (rulesets_of b)
              (zone := map (appended b0 rs f) (rulesets_of b zone)), next_id := n\<rparr>) z p)
     = length (entry_points b z p)"
  by (cases "z = zone") (simp_all add: entry_points_def filter_phase_map appended_phase)

lemma length_entry_points_with_created:
  "length (entry_points (with_created b zone) z p)
     = length (entry_points b z p)
       + (if z = zone \<and> p = ''http_request_firewall_custom'' then 1 else 0)"
  by (simp add: entry_points_def with_created_def created_def enc_custom)

lemma createCustomRule_keeps_unique:
  assumes "unique_entry_points b"
  shows "unique_entry_points (snd (createCustomRule api (backend_fetch nf) zoneId rule b))"
proof (cases "entry_points b (encodeURIComponent zoneId) ''http_request_firewall_custom''")
  case (Cons r rest)
  show ?thesis
    using assms
    by (simp add: createCustomRule_existing [OF Cons] unique_entry_points_def
          length_entry_points_appended)
next
  case Nil
  show ?thesis
  proof (cases "recognised nf")
    case False
    with Nil assms show ?thesis by (simp add: createCustomRule_unseen)
  next
    case True
    have "length (entry_points (with_created b (encodeURIComponent zoneId)) z p) \<le> 1" for z p
      using assms Nil
      by (auto simp: length_entry_points_with_created unique_entry_points_def)
    then show ?thesis
      by (simp add: createCustomRule_fresh [OF Nil True] unique_entry_points_def
            length_entry_points_appended)
  qed
qed

text \<open>
  Where the client recognises the report of the missing entry point (the surfaced message
  contains \<open>404\<close> or \<open>not found\<close>), \<open>createCustomRule\<close> creates one ruleset of phase
  \<open>http_request_firewall_custom\<close> and appends one rule to it, and a second call appends
  to the same ruleset, which then has exactly two rules. On this provider, which reports
  a failure of the lookup only for a missing entry point, every call keeps at most one
  entry point for each zone and phase.
\<close>

lemma createCustomRule_twice_when_recognised:
  "(entry_points b (encodeURIComponent zoneId) ''http_request_firewall_custom'' = []
      \<and> recognised nf \<longrightarrow>
      (\<exists>r1 b1 r2 b2 rs.
         createCustomRule api (backend_fetch nf) zoneId rule b = (Inr (Some r1), b1)
         \<and> entry_points b1 (encodeURIComponent zoneId) ''http_request_firewall_custom''
             = [rs\<lparr>rules := [r1]\<rparr>]
         \<and> rs_phase rs = ''http_request_firewall_custom''
         \<and> next_id b1 = next_id b + 2
         \<and> description r1 = description rule \<and> expression r1 = expression rule
         \<and> action r1 = action rule \<and> enabled r1 = enabled rule
         \<and> createCustomRule api (backend_fetch nf) zoneId rule' b1 = (Inr (Some r2), b2)
         \<and> entry_points b2 (encodeURIComponent zoneId) ''http_request_firewall_custom''
             = [rs\<lparr>rules := [r1, r2]\<rparr>]
         \<and> next_id b2 = next_id b1 + 1
         \<and> description r2 = description rule' \<and> expression r2 = expression rule'
         \<and> action r2 = action rule' \<and> enabled r2 = enabled rule'))
   \<and> (unique_entry_points b \<longrightarrow>
        unique_entry_points (snd (createCustomRule api (backend_fetch nf) zoneId rule b)))"
proof (intro conjI impI)
  assume u: "unique_entry_points b"
  then show "unique_entry_points (snd (createCustomRule api (backend_fetch nf) zoneId rule b))"
    by (rule createCustomRule_keeps_unique)
next
  let ?z = "encodeURIComponent zoneId"
  assume a: "entry_points b ?z ''http_request_firewall_custom'' = [] \<and> recognised nf"
  then have nil: "entry_points b ?z ''http_request_firewall_custom'' = []" and rec: "recognised nf"
    by simp_all
  let ?r1 = "new_rule (fresh_id (next_id b + 1)) rule"
  let ?c = "with_created b ?z"
  let ?b1 = "?c\<lparr>rulesets_of := (rulesets_of ?c)
                 (?z := map (appended ?c (encodeURIComponent (fresh_id (next_id b))) rule)
                          (rulesets_of ?c ?z)),
               next_id := next_id b + 2\<rparr>"
  let ?rs1 = "(created b)\<lparr>rules := [?r1]\<rparr>"
  have c1: "createCustomRule api (backend_fetch nf) zoneId rule b = (Inr (Some ?r1), ?b1)"
    by (rule createCustomRule_fresh [OF nil rec])
  have e1: "entry_points ?b1 ?z ''http_request_firewall_custom'' = [?rs1]"
    by (rule entry_points_fresh_result [OF nil])
  have n1: "next_id ?b1 = next_id b + 2" by simp
  let ?r2 = "new_rule (fresh_id (next_id ?b1)) rule'"
  let ?b2 = "?b1\<lparr>rulesets_of := (rulesets_of ?b1)(?z :=
                   map (appended ?b1 (encodeURIComponent (rs_id ?rs1)) rule')
                     (rulesets_of ?b1 ?z)),
               next_id := next_id ?b1 + 1\<rparr>"
  have c2: "createCustomRule api (backend_fetch nf) zoneId rule' ?b1 = (Inr (Some ?r2), ?b2)"
    by (rule createCustomRule_existing [OF e1])
  have "entry_points ?b2 ?z ''http_request_firewall_custom''
          = map (appended ?b1 (encodeURIComponent (rs_id ?rs1)) rule')
              (entry_points ?b1 ?z ''http_request_firewall_custom'')"
    by (rule entry_points_appended_same)
  also have "\<dots> = map (appended ?b1 (encodeURIComponent (rs_id ?rs1)) rule') [?rs1]"
    by (simp only: e1)
  also have "\<dots> = [(created b)\<lparr>rules := [?r1, ?r2]\<rparr>]"
    by (simp add: appended_def)
  finally have e2: "entry_points ?b2 ?z ''http_request_firewall_custom''
                      = [(created b)\<lparr>rules := [?r1, ?r2]\<rparr>]" .
  have n2: "next_id ?b2 = next_id ?b1 + 1" by simp
  have f1: "description ?r1 = description rule \<and> expression ?r1 = expression rule
            \<and> action ?r1 = action rule \<and> enabled ?r1 = enabled rule"
    by (simp add: new_rule_def)
  have f2: "description ?r2 = description rule' \<and> expression ?r2 = expression rule'
            \<and> action ?r2 = action rule' \<and> enabled ?r2 = enabled rule'"
    by (simp add: new_rule_def)
  have p: "rs_phase (created b) = ''http_request_firewall_custom''" by (simp add: created_def)
  have e1': "entry_points ?b1 ?z ''http_request_firewall_custom'' = [(created b)\<lparr>rules := [?r1]\<rparr>]"
    by (rule e1)
  show "\<exists>r1 b1 r2 b2 rs.
         createCustomRule api (backend_fetch nf) zoneId rule b = (Inr (Some r1), b1)
         \<and> entry_points b1 ?z ''http_request_firewall_custom'' = [rs\<lparr>rules := [r1]\<rparr>]
         \<and> rs_phase rs = ''http_request_firewall_custom''
         \<and> next_id b1 = next_id b + 2
         \<and> description r1 = description rule \<and> expression r1 = expression rule
         \<and> action r1 = action rule \<and> enabled r1 = enabled rule
         \<and> createCustomRule api (backend_fetch nf) zoneId rule' b1 = (Inr (Some r2), b2)
         \<and> entry_points b2 ?z ''http_request_firewall_custom'' = [rs\<lparr>rules := [r1, r2]\<rparr>]
         \<and> next_id b2 = next_id b1 + 1
         \<and> description r2 = description rule' \<and> expression r2 = expression rule'
         \<and> action r2 = action rule' \<and> enabled r2 = enabled rule'"
    apply (rule exI [of _ ?r1], rule exI [of _ ?b1], rule exI [of _ ?r2], rule exI [of _ ?b2],
           rule exI [of _ "created b"])
    using c1 e1' p n1 f1 c2 e2 n2 f2 apply (intro conjI)
    apply (simp_all only: simp_thms)
    done
qed

lemma enc_zone0: "encodeURIComponent zone0 = zone0"
  unfolding zone0_def by code_simp

lemma fresh_id_1: "fresh_id (Suc 0) = ''00000000000000000000000000000001''"
  by code_simp

lemma sanitize_could_not_find:
  "sanitizeErrorMessage ''could not find entrypoint ruleset''
     = ''could not find entrypoint ruleset''"
  by code_simp

lemma unrecognised_could_not_find: "\<not> recognised ''could not find entrypoint ruleset''"
  unfolding recognised_def surfaced_def sanitize_could_not_find by code_simp

lemma sanitize_ruleset_not_found:
  "sanitizeErrorMessage ''ruleset not found'' = ''ruleset not found''"
  by code_simp

lemma recognised_ruleset_not_found: "recognised ''ruleset not found''"
  unfolding recognised_def surfaced_def sanitize_ruleset_not_found by code_simp

lemma zone0_fresh:
  "entry_points empty_backend (encodeURIComponent zone0) ''http_request_firewall_custom'' = []"
  by (simp add: entry_points_def empty_backend_def)

text \<open>
  C1. On a zone that has no entry point of the custom-firewall phase, \<open>createCustomRule\<close>
  is to create one ruleset of phase \<open>http_request_firewall_custom\<close> and to append the
  rule to it; the comment of its catch block says \<open>If ruleset doesn't exist, create it\<close>.
  The catch block takes the ruleset for missing only if the message of the failed lookup
  contains \<open>404\<close> or \<open>not found\<close>. So on the zone \<open>zone0\<close> of the empty provider: when
  the provider reports the missing entry point as \<open>could not find entrypoint ruleset\<close>,
  the call fails with that message and the provider still has no ruleset; when the
  provider reports it as \<open>ruleset not found\<close>, the call returns the new rule and the
  zone has one entry point, holding that one rule.
\<close>

theorem createCustomRule_misses_absent_ruleset:
  "entry_points empty_backend (encodeURIComponent zone0) ''http_request_firewall_custom'' = []
   \<and> createCustomRule api0 (backend_fetch ''could not find entrypoint ruleset'') zone0 rule0
        empty_backend
       = (Inl (Error ApiError ''Cloudflare API error: could not find entrypoint ruleset''),
          empty_backend)
   \<and> fst (createCustomRule api0 (backend_fetch ''ruleset not found'') zone0 rule0 empty_backend)
       = Inr (Some (new_rule ''00000000000000000000000000000001'' rule0))
   \<and> map rules
        (entry_points
           (snd (createCustomRule api0 (backend_fetch ''ruleset not found'') zone0 rule0
                   empty_backend))
           (encodeURIComponent zone0) ''http_request_firewall_custom'')
       = [[new_rule ''00000000000000000000000000000001'' rule0]]"
proof -
  have n: "next_id empty_backend = 0" by (simp add: empty_backend_def)
  have miss: "createCustomRule api0 (backend_fetch ''could not find entrypoint ruleset'') zone0
                rule0 empty_backend
       = (Inl (Error ApiError ''Cloudflare API error: could not find entrypoint ruleset''),
          empty_backend)"
    using createCustomRule_unseen [OF zone0_fresh unrecognised_could_not_find, of api0 rule0]
    by (simp add: surfaced_def sanitize_could_not_find)
  note made = createCustomRule_fresh [OF zone0_fresh recognised_ruleset_not_found,
                where api = api0 and rule = rule0]
  have ret: "fst (createCustomRule api0 (backend_fetch ''ruleset not found'') zone0 rule0
                    empty_backend)
       = Inr (Some (new_rule ''00000000000000000000000000000001'' rule0))"
    by (simp add: made n fresh_id_1)
  have "entry_points
           (snd (createCustomRule api0 (backend_fetch ''ruleset not found'') zone0 rule0
                   empty_backend))
           (encodeURIComponent zone0) ''http_request_firewall_custom''
       = [(created empty_backend)\<lparr>rules := [new_rule (fresh_id (next_id empty_backend + 1))
                                                rule0]\<rparr>]"
    unfolding made snd_conv by (rule entry_points_fresh_result [OF zone0_fresh])
  then have one: "map rules
        (entry_points
           (snd (createCustomRule api0 (backend_fetch ''ruleset not found'') zone0 rule0
                   empty_backend))
           (encodeURIComponent zone0) ''http_request_firewall_custom'')
       = [[new_rule ''00000000000000000000000000000001'' rule0]]"
    by (simp add: n fresh_id_1)
  from zone0_fresh miss ret one show ?thesis by (intro conjI)
qed

section \<open>Matches of a pattern\<close>

lemma advance_ctx:
  "n \<le> length rest \<Longrightarrow> advance (prev, rest) n = (ctx prev (take n rest), drop n rest)"
  by (cases "n = 0") (auto simp: ctx_def last_conv_nth min_def)

lemma advance_advance:
  "c \<le> length rest \<Longrightarrow> advance (advance (prev, rest) c) m = advance (prev, rest) (c + m)"
  by (cases "m = 0") (auto simp: add.commute)

lemma lit_match_iff:
  "lit_match ic s rest \<longleftrightarrow>
     length s \<le> length rest \<and> (\<forall>i < length s. ci_eq ic (rest ! i) (s ! i))"
proof (induction ic s rest rule: lit_match.induct)
  case (3 ic x xs c cs)
  have "(\<forall>i < Suc (length xs). ci_eq ic ((c # cs) ! i) ((x # xs) ! i))
          \<longleftrightarrow> ci_eq ic c x \<and> (\<forall>i < length xs. ci_eq ic (cs ! i) (xs ! i))"
    by (auto simp: less_Suc_eq_0_disj simp del: ci_eq.simps)
  then show ?case by (simp add: 3 del: ci_eq.simps) auto
qed simp_all

lemma node_counts_bounds:
  assumes "c \<in> set (node_counts ic n (prev, rest))"
  shows "c \<le> length rest" and "node_min n \<le> c"
    and "\<forall>x \<in> set (take c rest). node_eats ic n x"
proof -
  show "c \<le> length rest"
  proof (cases n)
    case (Lit s) with assms show ?thesis by (simp add: lit_match_iff split: if_splits)
  next
    case (Rep cls lo hi)
    let ?avail = "case hi of None \<Rightarrow> rest | Some h \<Rightarrow> take h rest"
    have "length (takeWhile (in_class ic cls) ?avail) \<le> length ?avail"
      by (rule length_takeWhile_le)
    also have "\<dots> \<le> length rest" by (cases hi) simp_all
    finally show ?thesis using assms Rep by (auto simp: Let_def)
  qed (use assms in \<open>simp_all split: if_splits\<close>)
  show "node_min n \<le> c"
    using assms by (cases n) (auto simp: Let_def split: if_splits)
  show "\<forall>x \<in> set (take c rest). node_eats ic n x"
  proof (cases n)
    case (Lit s)
    with assms have m: "lit_match ic s rest" and c: "c = length s" by (simp_all split: if_splits)
    show ?thesis
    proof
      fix x assume "x \<in> set (take c rest)"
      then obtain i where i: "i < c" "i < length rest" "x = rest ! i"
        by (auto simp: in_set_conv_nth)
      with m c have "ci_eq ic x (s ! i)" by (simp add: lit_match_iff del: ci_eq.simps)
      with i c show "node_eats ic n x" by (auto simp: Lit list_ex_iff simp del: ci_eq.simps)
    qed
  next
    case (Rep cls lo hi)
    let ?avail = "case hi of None \<Rightarrow> rest | Some h \<Rightarrow> take h rest"
    let ?tw = "takeWhile (in_class ic cls) ?avail"
    from assms Rep have c: "c \<le> length ?tw" by (auto simp: Let_def)
    have "?tw = take (length ?tw) ?avail" by (rule takeWhile_eq_take)
    also have "\<dots> = take (length ?tw) rest"
    proof (cases hi)
      case None then show ?thesis by simp
    next
      case (Some h)
      have "length (takeWhile (in_class ic cls) (take h rest)) \<le> h"
        by (rule order_trans [OF length_takeWhile_le]) simp
      then show ?thesis by (simp add: Some min_def)
    qed
    finally have "take c rest = take c ?tw" using c by (metis min.absorb1 take_take)
    then have "set (take c rest) \<subseteq> set ?tw" by (metis set_take_subset)
    then show ?thesis by (auto simp: Rep dest: set_takeWhileD)
  qed (use assms in \<open>simp_all split: if_splits\<close>)
qed

lemma reach_bounds:
  assumes "n \<in> reach ic rx (prev, rest)"
  shows "n \<le> length rest \<and> sum_list (map node_min rx) \<le> n
         \<and> (\<forall>x \<in> set (take n rest). eats ic rx x)"
  using assms
proof (induction rx arbitrary: n prev rest)
  case Nil
  then show ?case by (simp add: eats_def)
next
  case (Cons a rx)
  from Cons.prems obtain c m where c: "c \<in> set (node_counts ic a (prev, rest))"
    and m: "m \<in> reach ic rx (advance (prev, rest) c)" and n: "n = c + m"
    by auto
  note b = node_counts_bounds [OF c]
  from m b(1) have "m \<in> reach ic rx (ctx prev (take c rest), drop c rest)"
    by (simp only: advance_ctx)
  from Cons.IH [OF this] have ih: "m \<le> length (drop c rest)" "sum_list (map node_min rx) \<le> m"
    "\<forall>x \<in> set (take m (drop c rest)). eats ic rx x"
    by simp_all
  have "take n rest = take c rest @ take m (drop c rest)"
    by (simp add: n take_add)
  with b(3) ih(3) have "\<forall>x \<in> set (take n rest). eats ic (a # rx) x"
    by (auto simp: eats_def)
  with b ih n show ?case by simp
qed

lemma match_seq_reach: "set (match_seq ic rx p) = advance p ` reach ic rx p"
proof (induction rx arbitrary: p)
  case Nil
  obtain prev rest where "p = (prev, rest)" by (cases p)
  then show ?case by simp
next
  case (Cons a rx)
  obtain prev rest where p: "p = (prev, rest)" by (cases p)
  have "advance (advance p c) m = advance p (c + m)"
    if "c \<in> set (node_counts ic a p)" for c m
    using node_counts_bounds(1) [of c ic a prev rest] that by (simp only: p advance_advance)
  then show ?case
    by (auto simp: Cons.IH match_node_def image_iff)
qed

lemma match_at_None: "match_at ic rx p = None \<longleftrightarrow> reach ic rx p = {}"
proof -
  have "match_at ic rx p = None \<longleftrightarrow> set (match_seq ic rx p) = {}"
    by (simp add: match_at_def split: list.splits)
  then show ?thesis by (simp add: match_seq_reach)
qed

lemma match_at_Some:
  assumes "match_at ic rx p = Some q"
  shows "\<exists>n \<in> reach ic rx p. q = advance p n"
proof -
  from assms have "q \<in> set (match_seq ic rx p)"
    by (auto simp: match_at_def split: list.splits)
  then show ?thesis by (auto simp: match_seq_reach)
qed

lemma le_length_takeWhile:
  "c \<le> length (takeWhile P xs) \<longleftrightarrow> c \<le> length xs \<and> (\<forall>i < c. P (xs ! i))"
proof (induction xs arbitrary: c)
  case Nil
  then show ?case by auto
next
  case (Cons x xs)
  show ?case
  proof (cases c)
    case 0
    then show ?thesis by simp
  next
    case (Suc d)
    have "(\<forall>i < Suc d. P ((x # xs) ! i)) \<longleftrightarrow> P x \<and> (\<forall>i < d. P (xs ! i))"
      by (auto simp: less_Suc_eq_0_disj)
    then show ?thesis by (simp add: Suc Cons.IH)
  qed
qed

lemma rep_count_iff:
  "c \<in> set (node_counts ic (Rep cls lo hi) (prev, rest)) \<longleftrightarrow>
     lo \<le> c \<and> c \<le> length rest \<and> (case hi of None \<Rightarrow> True | Some h \<Rightarrow> c \<le> h)
     \<and> (\<forall>i < c. in_class ic cls (rest ! i))"
proof -
  let ?avail = "case hi of None \<Rightarrow> rest | Some h \<Rightarrow> take h rest"
  have "c \<in> set (node_counts ic (Rep cls lo hi) (prev, rest))
          \<longleftrightarrow> lo \<le> c \<and> c \<le> length (takeWhile (in_class ic cls) ?avail)"
    by (auto simp: Let_def)
  also have "\<dots> \<longleftrightarrow> lo \<le> c \<and> c \<le> length ?avail \<and> (\<forall>i < c. in_class ic cls (?avail ! i))"
    by (simp only: le_length_takeWhile)
  also have "\<dots> \<longleftrightarrow> lo \<le> c \<and> c \<le> length rest
               \<and> (case hi of None \<Rightarrow> True | Some h \<Rightarrow> c \<le> h)
               \<and> (\<forall>i < c. in_class ic cls (rest ! i))"
    by (cases hi) auto
  finally show ?thesis .
qed

lemma node_count_transfer:
  assumes "c \<in> set (node_counts ic a (p, g @ y1))" and "c \<le> length g"
      and "c < length g \<or> consuming a" and "p2 = p \<or> consuming a"
  shows "c \<in> set (node_counts ic a (p2, g @ y2))"
proof (cases a)
  case (Lit s)
  with assms(1) have "lit_match ic s (g @ y1)" "c = length s" by (simp_all split: if_splits)
  with assms(2) have "lit_match ic s (g @ y2)"
    by (simp add: lit_match_iff nth_append del: ci_eq.simps)
  with \<open>c = length s\<close> show ?thesis by (simp add: Lit)
next
  case (Rep cls lo hi)
  from assms(1,2) show ?thesis
    unfolding Rep rep_count_iff by (auto simp: nth_append)
next
  case WordB
  with assms have "g \<noteq> []" "p2 = p" by auto
  then obtain x xs where "g = x # xs" by (cases g) auto
  with assms(1) \<open>p2 = p\<close> show ?thesis by (simp add: WordB split: if_splits)
next
  case Bol
  with assms show ?thesis by (auto split: if_splits)
next
  case Eol
  with assms have "g \<noteq> []" by auto
  with assms(1) show ?thesis by (simp add: Eol)
qed

lemma reach_transfer:
  assumes "n \<in> reach ic rx (p, g @ y1)" and "n \<le> length g"
      and "n < length g \<or> list_all consuming rx" and "p2 = p \<or> list_all consuming rx"
  shows "n \<in> reach ic rx (p2, g @ y2)"
  using assms
proof (induction rx arbitrary: n p p2 g)
  case Nil
  then show ?case by simp
next
  case (Cons a rx)
  from Cons.prems(1) obtain c m where c: "c \<in> set (node_counts ic a (p, g @ y1))"
    and m: "m \<in> reach ic rx (advance (p, g @ y1) c)" and n: "n = c + m"
    by auto
  from n Cons.prems(2) have cg: "c \<le> length g" by simp
  have c2: "c \<in> set (node_counts ic a (p2, g @ y2))"
    using c cg Cons.prems(3,4) n by (intro node_count_transfer [OF c cg]) auto
  have a1: "advance (p, g @ y1) c = (ctx p (take c g), drop c g @ y1)"
    using cg advance_ctx [of c "g @ y1" p] by simp
  have a2: "advance (p2, g @ y2) c = (ctx p2 (take c g), drop c g @ y2)"
    using cg advance_ctx [of c "g @ y2" p2] by simp
  have "m \<in> reach ic rx (ctx p2 (take c g), drop c g @ y2)"
  proof (rule Cons.IH)
    show "m \<in> reach ic rx (ctx p (take c g), drop c g @ y1)" using m a1 by simp
    show "m \<le> length (drop c g)" using n Cons.prems(2) by simp
    show "m < length (drop c g) \<or> list_all consuming rx" using n Cons.prems(3) by auto
    show "ctx p2 (take c g) = ctx p (take c g) \<or> list_all consuming rx"
      using Cons.prems(4) by auto
  qed
  then have "n \<in> (\<lambda>m. c + m) ` reach ic rx (advance (p2, g @ y2) c)"
    by (simp only: a2 n) (rule imageI)
  with c2 show ?case by (simp only: reach.simps) (rule UN_I)
qed

section \<open>Replacement of matches\<close>

lemma replace_from_None:
  assumes "match_at ic rx (prev, rest) = None"
  shows "replace_from ic rx repl (prev, rest) =
           (case rest of [] \<Rightarrow> [] | c # cs \<Rightarrow> c # replace_from ic rx repl (Some c, cs))"
  using assms by (subst replace_from.simps) simp

lemma replace_from_Some:
  assumes "match_at ic rx (prev, rest) = Some (p', r')" and "length r' < length rest"
  shows "replace_from ic rx repl (prev, rest) = repl @ replace_from ic rx repl (p', r')"
  using assms by (subst replace_from.simps) simp

lemma match_consumes:
  assumes "match_at ic rx (prev, rest) = Some q" and "0 < sum_list (map node_min rx)"
  shows "\<exists>n. 0 < n \<and> n \<le> length rest \<and> n \<in> reach ic rx (prev, rest)
             \<and> q = (ctx prev (take n rest), drop n rest)"
proof -
  from match_at_Some [OF assms(1)] obtain n where n: "n \<in> reach ic rx (prev, rest)"
    and q: "q = advance (prev, rest) n" by auto
  from reach_bounds [OF n] assms(2) have "0 < n" "n \<le> length rest" by simp_all
  with n q show ?thesis by (auto simp only: advance_ctx)
qed

lemma ctx_Cons: "ctx prev (c # u) = ctx (Some c) u"
  by (simp add: ctx_def)

lemma ctx_append: "ctx prev (u @ w) = ctx (ctx prev u) w"
  by (simp add: ctx_def)

lemma clean_Cons:
  "clean ic rx prev (c # cs) \<longleftrightarrow> match_at ic rx (prev, c # cs) = None \<and> clean ic rx (Some c) cs"
proof
  assume a: "clean ic rx prev (c # cs)"
  then have all: "match_at ic rx (ctx prev u, v) = None" if "c # cs = u @ v" for u v
    using that by (simp add: clean_def)
  from all [of "[]" "c # cs"] have 1: "match_at ic rx (prev, c # cs) = None"
    by (simp add: ctx_def)
  have "match_at ic rx (ctx (Some c) u, v) = None" if "cs = u @ v" for u v
    using all [of "c # u" v] that by (simp add: ctx_Cons)
  then have "clean ic rx (Some c) cs" by (simp add: clean_def)
  with 1 show "match_at ic rx (prev, c # cs) = None \<and> clean ic rx (Some c) cs" ..
next
  assume a: "match_at ic rx (prev, c # cs) = None \<and> clean ic rx (Some c) cs"
  show "clean ic rx prev (c # cs)"
    unfolding clean_def
  proof (intro allI impI)
    fix u v assume uv: "c # cs = u @ v"
    show "match_at ic rx (ctx prev u, v) = None"
    proof (cases u)
      case Nil
      with uv a show ?thesis by (simp add: ctx_def)
    next
      case (Cons x u')
      with uv have "x = c" "cs = u' @ v" by simp_all
      with a Cons show ?thesis by (simp add: clean_def ctx_Cons)
    qed
  qed
qed

lemma clean_Nil: "clean ic rx prev [] \<longleftrightarrow> match_at ic rx (prev, []) = None"
  by (simp add: clean_def ctx_def)

lemma replace_clean:
  "clean ic rx prev s \<Longrightarrow> replace_from ic rx repl (prev, s) = s"
proof (induction s arbitrary: prev)
  case Nil
  then show ?case by (simp add: clean_Nil replace_from_None)
next
  case (Cons c cs)
  then show ?case by (simp add: clean_Cons replace_from_None)
qed

section \<open>Patterns without assertions\<close>

lemma reach_any_context:
  assumes "list_all consuming rx"
  shows "reach ic rx (p, v) = reach ic rx (p2, v)"
proof -
  have "n \<in> reach ic rx (b, v)" if "n \<in> reach ic rx (a, v)" for n a b
    using reach_transfer [of n ic rx a v "[]" b "[]"] reach_bounds [OF that] that assms by simp
  then show ?thesis by blast
qed

lemma hit_iff: "list_all consuming rx \<Longrightarrow> hit ic rx v \<longleftrightarrow> reach ic rx (p, v) \<noteq> {}"
  using reach_any_context [of rx ic None v p] by (simp add: hit_def match_at_None)

lemma hit_barrier:
  assumes "list_all consuming rx" and "\<not> eats ic rx b" and "hit ic rx (g @ b # y)"
  shows "hit ic rx (g @ y2)"
proof -
  from assms(1,3) obtain n where n: "n \<in> reach ic rx (None, g @ b # y)"
    by (auto simp: hit_iff [of rx ic _ None])
  have "n \<le> length g"
  proof (rule ccontr)
    assume "\<not> n \<le> length g"
    then have "b \<in> set (take n (g @ b # y))"
      by (simp add: take_Cons') 
    with reach_bounds [OF n] assms(2) show False by blast
  qed
  from reach_transfer [OF n this, of None y2] assms(1)
  show ?thesis by (auto simp: hit_iff [of rx ic _ None])
qed

lemma free_clean:
  assumes "list_all consuming rx" and "free ic rx s"
  shows "clean ic rx prev s"
  unfolding clean_def
proof (intro allI impI)
  fix u v assume "s = u @ v"
  with assms(2) have "\<not> hit ic rx v" by (simp add: free_def)
  then show "match_at ic rx (ctx prev u, v) = None"
    by (simp add: match_at_None hit_iff [OF assms(1), of ic v "ctx prev u"])
qed

lemma hit_through_replace:
  assumes af: "list_all consuming rxj" and bar: "\<not> eats icj rxj b"
      and cons: "0 < sum_list (map node_min rxi)"
  shows "hit icj rxj (g @ replace_from ici rxi (b # ts) (p, v)) \<Longrightarrow> hit icj rxj (g @ v)"
proof (induction "length v" arbitrary: v p g rule: less_induct)
  case less
  show ?case
  proof (cases "match_at ici rxi (p, v)")
    case None
    show ?thesis
    proof (cases v)
      case Nil
      with less.prems None show ?thesis by (simp add: replace_from_None)
    next
      case (Cons c cs)
      with less.prems None
      have "hit icj rxj ((g @ [c]) @ replace_from ici rxi (b # ts) (Some c, cs))"
        by (simp add: replace_from_None)
      from less.hyps [OF _ this] Cons show ?thesis by simp
    qed
  next
    case (Some q)
    from match_consumes [OF Some cons] obtain n where n: "0 < n" "n \<le> length v"
      and q: "q = (ctx p (take n v), drop n v)" by auto
    from Some q n have "replace_from ici rxi (b # ts) (p, v)
        = (b # ts) @ replace_from ici rxi (b # ts) (ctx p (take n v), drop n v)"
      by (intro replace_from_Some) simp_all
    with less.prems have "hit icj rxj (g @ b # (ts @ replace_from ici rxi (b # ts)
                                                     (ctx p (take n v), drop n v)))"
      by simp
    from hit_barrier [OF af bar this] show ?thesis .
  qed
qed

lemma free_Nil: "free ic rx [] \<longleftrightarrow> \<not> hit ic rx []"
  by (simp add: free_def)

lemma free_Cons: "free ic rx (c # s) \<longleftrightarrow> \<not> hit ic rx (c # s) \<and> free ic rx s"
proof
  assume a: "free ic rx (c # s)"
  then have all: "\<not> hit ic rx v" if "c # s = u @ v" for u v
    using that by (simp add: free_def)
  from all [of "[]" "c # s"] have 1: "\<not> hit ic rx (c # s)" by simp
  have "\<not> hit ic rx v" if "s = u @ v" for u v
    using all [of "c # u" v] that by simp
  then have "free ic rx s" by (simp add: free_def)
  with 1 show "\<not> hit ic rx (c # s) \<and> free ic rx s" ..
next
  assume a: "\<not> hit ic rx (c # s) \<and> free ic rx s"
  show "free ic rx (c # s)"
    unfolding free_def
  proof (intro allI impI)
    fix u v assume uv: "c # s = u @ v"
    show "\<not> hit ic rx v"
    proof (cases u)
      case Nil
      with uv a show ?thesis by simp
    next
      case (Cons x u')
      with uv have "s = u' @ v" by simp
      with a show ?thesis by (simp add: free_def)
    qed
  qed
qed

lemma free_appendI:
  assumes "\<And>u w. a = u @ w \<Longrightarrow> w \<noteq> [] \<Longrightarrow> \<not> hit ic rx (w @ b)" and "free ic rx b"
  shows "free ic rx (a @ b)"
  using assms(1)
proof (induction a)
  case Nil
  then show ?case by (simp add: assms(2))
next
  case (Cons x a)
  have "\<not> hit ic rx ((x # a) @ b)" by (rule Cons.prems [of "[]"]) simp_all
  moreover have "free ic rx (a @ b)"
  proof (rule Cons.IH)
    fix u w assume "a = u @ w" "w \<noteq> []"
    then show "\<not> hit ic rx (w @ b)" using Cons.prems [of "x # u" w] by simp
  qed
  ultimately show ?case by (simp add: free_Cons)
qed

lemma free_replace:
  assumes af: "list_all consuming rxj" and ebar: "\<not> eats icj rxj e"
      and cons: "0 < sum_list (map node_min rxi)"
      and inside: "free icj rxj ts"
      and through: "\<And>g p v. hit icj rxj (g @ replace_from ici rxi (ts @ [e]) (p, v))
                      \<Longrightarrow> hit icj rxj (g @ v)"
  shows "(\<And>u v. rest = u @ v \<Longrightarrow> match_at ici rxi (ctx prev u, v) = None \<Longrightarrow> \<not> hit icj rxj v)
           \<Longrightarrow> free icj rxj (replace_from ici rxi (ts @ [e]) (prev, rest))"
proof (induction "length rest" arbitrary: rest prev rule: less_induct)
  case less
  show ?case
  proof (cases "match_at ici rxi (prev, rest)")
    case None
    with less.prems [of "[]" rest] have nh: "\<not> hit icj rxj rest" by (simp add: ctx_def)
    show ?thesis
    proof (cases rest)
      case Nil
      with None nh show ?thesis by (simp add: replace_from_None free_Nil)
    next
      case (Cons c cs)
      let ?O = "replace_from ici rxi (ts @ [e]) (Some c, cs)"
      have "\<not> hit icj rxj (c # ?O)"
      proof
        assume "hit icj rxj (c # ?O)"
        then have "hit icj rxj ([c] @ ?O)" by simp
        from through [OF this] nh Cons show False by simp
      qed
      moreover have "free icj rxj ?O"
      proof (rule less.hyps)
        show "length cs < length rest" by (simp add: Cons)
        fix u v assume "cs = u @ v" "match_at ici rxi (ctx (Some c) u, v) = None"
        then show "\<not> hit icj rxj v"
          using less.prems [of "c # u" v] by (simp add: Cons ctx_Cons)
      qed
      ultimately show ?thesis using None Cons by (simp add: replace_from_None free_Cons)
    qed
  next
    case (Some q)
    from match_consumes [OF Some cons] obtain n where n: "0 < n" "n \<le> length rest"
      and q: "q = (ctx prev (take n rest), drop n rest)" by auto
    let ?O = "replace_from ici rxi (ts @ [e]) (ctx prev (take n rest), drop n rest)"
    from Some q n have out: "replace_from ici rxi (ts @ [e]) (prev, rest) = (ts @ [e]) @ ?O"
      by (intro replace_from_Some) simp_all
    have fo: "free icj rxj ?O"
    proof (rule less.hyps)
      show "length (drop n rest) < length rest" using n by simp
      fix u v assume "drop n rest = u @ v"
        "match_at ici rxi (ctx (ctx prev (take n rest)) u, v) = None"
      then show "\<not> hit icj rxj v"
        using less.prems [of "take n rest @ u" v] by (simp add: ctx_append)
          (metis append_take_drop_id)
    qed
    have "free icj rxj ((ts @ [e]) @ ?O)"
    proof (rule free_appendI [OF _ fo])
      fix u w assume uw: "ts @ [e] = u @ w" "w \<noteq> []"
      then obtain w' where w: "w = w' @ [e]" and ts: "ts = u @ w'"
        by (cases w rule: rev_cases) auto
      show "\<not> hit icj rxj (w @ ?O)"
      proof
        assume "hit icj rxj (w @ ?O)"
        then have "hit icj rxj (w' @ e # ?O)" by (simp add: w)
        from hit_barrier [OF af ebar this, of "[]"] have "hit icj rxj w'" by simp
        with inside ts show False by (simp add: free_def)
      qed
    qed
    with out show ?thesis by simp
  qed
qed

lemma consuming_rx:
  "list_all consuming BEARER_RX" "list_all consuming HEX_RX" "list_all consuming EMAIL_RX"
  by (simp_all add: BEARER_RX_def HEX_RX_def EMAIL_RX_def)

lemma min_len_rx:
  "0 < sum_list (map node_min BEARER_RX)" "0 < sum_list (map node_min HEX_RX)"
  "0 < sum_list (map node_min EMAIL_RX)" "0 < sum_list (map node_min IP_RX)"
  by (simp_all add: BEARER_RX_def HEX_RX_def EMAIL_RX_def IP_RX_def)

lemma brackets_not_eaten:
  "\<not> eats True BEARER_RX CHR ''[''" "\<not> eats True BEARER_RX CHR '']''"
  "\<not> eats True HEX_RX CHR ''[''" "\<not> eats True HEX_RX CHR '']''"
  "\<not> eats False EMAIL_RX CHR ''[''" "\<not> eats False EMAIL_RX CHR '']''"
  by code_simp+

lemma free_tokens_bearer:
  "free True BEARER_RX ''Bearer [REDACTED''"
  "free True BEARER_RX ''[REDACTED_ID''"
  "free True BEARER_RX ''[REDACTED_EMAIL''"
  "free True BEARER_RX ''[REDACTED_IP''"
  by (simp_all only: free_Cons free_Nil) code_simp+

lemma free_tokens_hex:
  "free True HEX_RX ''[REDACTED_ID''"
  "free True HEX_RX ''[REDACTED_EMAIL''"
  "free True HEX_RX ''[REDACTED_IP''"
  by (simp_all only: free_Cons free_Nil) code_simp+

lemma free_tokens_email:
  "free False EMAIL_RX ''[REDACTED_EMAIL''"
  "free False EMAIL_RX ''[REDACTED_IP''"
  by (simp_all only: free_Cons free_Nil) code_simp+

declare node_counts.simps [simp del] advance.simps [simp del] reach.simps [simp del]

lemma reach_Cons_iff:
  "n \<in> reach ic (a # rx) p \<longleftrightarrow>
     (\<exists>c m. c \<in> set (node_counts ic a p) \<and> m \<in> reach ic rx (advance p c) \<and> n = c + m)"
  by (auto simp: reach.simps)

lemma lit_count_iff:
  "c \<in> set (node_counts ic (Lit s) (prev, rest)) \<longleftrightarrow> lit_match ic s rest \<and> c = length s"
  by (auto simp: node_counts.simps)

lemma hit_bearer_iff:
  "hit True BEARER_RX x \<longleftrightarrow>
     lit_match True ''Bearer'' x
     \<and> (\<exists>a \<ge> 1. 6 + a < length x \<and> (\<forall>i < a. sp (x ! (6 + i))) \<and> tok (x ! (6 + a)))"
  (is "?l \<longleftrightarrow> ?r")
proof
  assume ?l
  then obtain n where "n \<in> reach True BEARER_RX (None, x)"
    by (auto simp: hit_iff [OF consuming_rx(1), of True x None])
  then obtain c a b where c: "c \<in> set (node_counts True (Lit ''Bearer'') (None, x))"
    and a: "a \<in> set (node_counts True (Rep [CSpace] 1 None) (advance (None, x) c))"
    and b: "b \<in> set (node_counts True (Rep (alnum @ [CChar CHR ''_'', CChar CHR ''-'']) 1 None)
                        (advance (advance (None, x) c) a))"
    unfolding BEARER_RX_def reach_Cons_iff by blast
  from c have lm: "lit_match True ''Bearer'' x" and c6: "c = 6"
    by (simp_all only: lit_count_iff) simp
  from lm have len: "6 \<le> length x" by (simp add: lit_match_iff)
  from a len have a': "1 \<le> a" "a \<le> length x - 6" "\<forall>i < a. sp (x ! (6 + i))"
    by (simp_all add: c6 advance_ctx rep_count_iff sp_def)
  from b len a' have bb: "1 \<le> b \<and> b \<le> length x - (a + 6)
      \<and> (\<forall>i < b. tok (x ! (a + 6 + i)))"
    by (simp add: c6 advance_ctx rep_count_iff tok_def)
  then have "0 < b" by simp
  with bb have "tok (x ! (a + 6 + 0))" by blast
  then have b': "tok (x ! (6 + a))" by (simp add: add.commute)
  from bb have "1 \<le> length x - (a + 6)" by linarith
  then have "6 + a < length x" by linarith
  with lm a' b' show ?r by blast
next
  assume r: ?r
  then obtain a where lm: "lit_match True ''Bearer'' x" and a: "1 \<le> a" "6 + a < length x"
    "\<forall>i < a. sp (x ! (6 + i))" "tok (x ! (6 + a))" by blast
  from lm have len: "6 \<le> length x" by (simp add: lit_match_iff)
  have 0: "6 \<in> set (node_counts True (Lit ''Bearer'') (None, x))"
    using lm by (simp only: lit_count_iff) simp
  have 1: "a \<in> set (node_counts True (Rep [CSpace] 1 None) (advance (None, x) 6))"
    using a len by (simp add: advance_ctx rep_count_iff sp_def)
  have 2: "1 \<in> set (node_counts True (Rep (alnum @ [CChar CHR ''_'', CChar CHR ''-'']) 1 None)
                        (advance (advance (None, x) 6) a))"
    using a len by (simp add: advance_ctx rep_count_iff tok_def add.commute)
  have 3: "0 \<in> reach True [] (advance (advance (advance (None, x) 6) a) 1)"
    by (simp add: reach.simps)
  have "6 + (a + (1 + 0)) \<in> reach True BEARER_RX (None, x)"
    unfolding BEARER_RX_def reach_Cons_iff using 0 1 2 3 by blast
  then show ?l by (auto simp: hit_iff [OF consuming_rx(1), of True x None])
qed

lemma bearer_letters:
  "\<not> sp CHR ''B''" "\<not> sp CHR ''e''" "\<not> sp CHR ''a''" "\<not> sp CHR ''r''"
  by code_simp+

lemma bearer_chars:
  "\<forall>c \<in> set ''Bearer''. \<not> sp c" "\<not> sp CHR ''[''" "\<not> tok CHR ''[''"
  by (simp add: bearer_letters) code_simp+

lemma tok_upper_B: "to_upper c = to_upper CHR ''B'' \<Longrightarrow> tok c"
proof -
  assume "to_upper c = to_upper CHR ''B''"
  moreover have "to_upper CHR ''B'' = CHR ''B''" by code_simp
  moreover have "in_item (CRange CHR ''A'' CHR ''Z'') CHR ''B''" by code_simp
  ultimately show "tok c" by (simp add: tok_def in_class_def alnum_def)
qed

lemma bearer_token_hit:
  assumes h: "hit True BEARER_RX (g @ ''Bearer [REDACTED]'' @ z)"
      and v: "v \<noteq> []" "tok (hd v)"
  shows "hit True BEARER_RX (g @ v)"
proof -
  let ?T = "''Bearer [REDACTED]'' @ z"
  let ?x = "g @ ?T"
  from h obtain a where lm: "lit_match True ''Bearer'' ?x" and a: "1 \<le> a" "6 + a < length ?x"
    "\<forall>i < a. sp (?x ! (6 + i))" "tok (?x ! (6 + a))"
    unfolding hit_bearer_iff by blast
  have at: "?x ! (length g + m) = ?T ! m" for m by (simp add: nth_append)
  have letters: "\<not> sp (?T ! m)" if "m < 6" for m
  proof -
    have "?T ! m = ''Bearer'' ! m" using that by (simp add: nth_Cons' )
    moreover have "''Bearer'' ! m \<in> set ''Bearer''" using that by (intro nth_mem) simp
    ultimately show ?thesis using bearer_chars(1) by metis
  qed
  have bracket: "?T ! 7 = CHR ''[''" by simp
  have inside: "6 + a \<le> length g"
  proof (rule ccontr)
    assume "\<not> 6 + a \<le> length g"
    then obtain k where k: "6 + a = length g + k" "1 \<le> k"
      by (metis add.commute le_add_diff_inverse2 less_eq_Suc_le linorder_not_le nat_le_linear
            One_nat_def zero_less_diff add_diff_cancel_left' le_add_diff_inverse)
    consider "k \<le> 6" | "k = 7" | "8 \<le> k" by linarith
    then show False
    proof cases
      case 1
      from a(1) have "a - 1 < a" by simp
      with a(3) have "sp (?x ! (6 + (a - 1)))" by blast
      moreover have "6 + (a - 1) = length g + (k - 1)" using k a(1) by simp
      ultimately have "sp (?T ! (k - 1))" by (simp only: at)
      with letters [of "k - 1"] 1 k(2) show False by simp
    next
      case 2
      with a(4) k(1) have "tok (?T ! 7)" by (simp only: at)
      with bearer_chars(3) show False by (simp only: bracket)
    next
      case 3
      with k(1) have "length g + 1 < a" by simp
      with a(3) have "sp (?x ! (6 + (length g + 1)))" by blast
      moreover have "6 + (length g + 1) = length g + 7" by simp
      ultimately have "sp (?T ! 7)" by (simp only: at)
      with bearer_chars(2) show False by (simp only: bracket)
    qed
  qed
  have lm': "lit_match True ''Bearer'' (g @ v)"
    using lm inside by (simp add: lit_match_iff nth_append del: ci_eq.simps)
  have 1: "6 + a < length (g @ v)" using inside v(1) by (cases v) simp_all
  have 2: "\<forall>i < a. sp ((g @ v) ! (6 + i))"
    using a(3) inside by (simp add: nth_append)
  have 3: "tok ((g @ v) ! (6 + a))"
  proof (cases "6 + a < length g")
    case True
    with a(4) show ?thesis by (simp add: nth_append)
  next
    case False
    with inside have "6 + a = length g" by simp
    then have "(g @ v) ! (6 + a) = hd v" using v(1) by (simp add: nth_append hd_conv_nth)
    with v(2) show ?thesis by simp
  qed
  from lm' a(1) 1 2 3 show ?thesis unfolding hit_bearer_iff by blast
qed

lemma bearer_through:
  "hit True BEARER_RX (g @ replace_from True BEARER_RX ''Bearer [REDACTED]'' (p, v))
     \<Longrightarrow> hit True BEARER_RX (g @ v)"
proof (induction "length v" arbitrary: v p g rule: less_induct)
  case less
  show ?case
  proof (cases "match_at True BEARER_RX (p, v)")
    case None
    show ?thesis
    proof (cases v)
      case Nil
      with less.prems None show ?thesis by (simp add: replace_from_None)
    next
      case (Cons c cs)
      with less.prems None
      have "hit True BEARER_RX
              ((g @ [c]) @ replace_from True BEARER_RX ''Bearer [REDACTED]'' (Some c, cs))"
        by (simp add: replace_from_None)
      from less.hyps [OF _ this] Cons show ?thesis by simp
    qed
  next
    case (Some q)
    have ml: "0 < sum_list (map node_min BEARER_RX)" by (simp add: BEARER_RX_def)
    from match_consumes [OF Some ml] obtain n where n: "0 < n" "n \<le> length v"
      and q: "q = (ctx p (take n v), drop n v)" by auto
    from Some have "hit True BEARER_RX v"
      by (simp add: hit_iff [OF consuming_rx(1), of True v p] match_at_None [symmetric])
    then have "lit_match True ''Bearer'' v" unfolding hit_bearer_iff by blast
    then have v: "v \<noteq> []" "tok (hd v)"
      by (cases v; simp add: tok_upper_B)+
    from Some q n have "replace_from True BEARER_RX ''Bearer [REDACTED]'' (p, v)
        = ''Bearer [REDACTED]'' @ replace_from True BEARER_RX ''Bearer [REDACTED]''
                                   (ctx p (take n v), drop n v)"
      by (intro replace_from_Some) simp_all
    with less.prems have "hit True BEARER_RX (g @ ''Bearer [REDACTED]'' @
        replace_from True BEARER_RX ''Bearer [REDACTED]'' (ctx p (take n v), drop n v))"
      by simp
    from bearer_token_hit [OF this v] show ?thesis .
  qed
qed

section \<open>The address pattern\<close>

lemma wordb_count_iff:
  "c \<in> set (node_counts ic WordB (prev, rest)) \<longleftrightarrow>
     c = 0 \<and> is_word prev \<noteq> is_word (next_char rest)"
  by (auto simp: node_counts.simps next_char_def)

lemma reach_Nil [simp]: "reach ic [] p = {0}"
  by (simp add: reach.simps)

lemma reach_append:
  "n \<in> reach ic (xs @ ys) (prev, rest) \<longleftrightarrow>
     (\<exists>a b. a \<in> reach ic xs (prev, rest) \<and> b \<in> reach ic ys (advance (prev, rest) a)
            \<and> n = a + b)"
proof (induction xs arbitrary: n prev rest)
  case Nil
  then show ?case by (simp add: advance.simps)
next
  case (Cons x xs)
  have adv: "advance (advance (prev, rest) c) a = advance (prev, rest) (c + a)"
    if "c \<in> set (node_counts ic x (prev, rest))" for c a
    using node_counts_bounds(1) [OF that] by (rule advance_advance)
  show ?case
  proof
    assume "n \<in> reach ic ((x # xs) @ ys) (prev, rest)"
    then obtain c m where c: "c \<in> set (node_counts ic x (prev, rest))"
      and m: "m \<in> reach ic (xs @ ys) (advance (prev, rest) c)" and n: "n = c + m"
      by (auto simp: reach_Cons_iff)
    obtain p' r' where pr: "advance (prev, rest) c = (p', r')"
      by (cases "advance (prev, rest) c")
    from m obtain a b where a: "a \<in> reach ic xs (p', r')"
      and b: "b \<in> reach ic ys (advance (p', r') a)" and mab: "m = a + b"
      unfolding pr Cons.IH by blast
    from c a have "c + a \<in> reach ic (x # xs) (prev, rest)"
      unfolding reach_Cons_iff pr [symmetric] by blast
    moreover from b have "b \<in> reach ic ys (advance (prev, rest) (c + a))"
      by (simp only: pr [symmetric] adv [OF c])
    ultimately show "\<exists>a b. a \<in> reach ic (x # xs) (prev, rest)
        \<and> b \<in> reach ic ys (advance (prev, rest) a) \<and> n = a + b"
      using n mab by (intro exI [of _ "c + a"] exI [of _ b]) simp
  next
    assume "\<exists>a b. a \<in> reach ic (x # xs) (prev, rest)
        \<and> b \<in> reach ic ys (advance (prev, rest) a) \<and> n = a + b"
    then obtain a b where a: "a \<in> reach ic (x # xs) (prev, rest)"
      and b: "b \<in> reach ic ys (advance (prev, rest) a)" and n: "n = a + b" by blast
    from a obtain c m where c: "c \<in> set (node_counts ic x (prev, rest))"
      and m: "m \<in> reach ic xs (advance (prev, rest) c)" and acm: "a = c + m"
      by (auto simp: reach_Cons_iff)
    obtain p' r' where pr: "advance (prev, rest) c = (p', r')"
      by (cases "advance (prev, rest) c")
    from b have "b \<in> reach ic ys (advance (p', r') m)"
      by (simp only: acm pr [symmetric] adv [OF c])
    with m have "m + b \<in> reach ic (xs @ ys) (p', r')"
      unfolding pr Cons.IH by blast
    with c have "c + (m + b) \<in> reach ic ((x # xs) @ ys) (prev, rest)"
      unfolding append_Cons reach_Cons_iff pr [symmetric] by blast
    then show "n \<in> reach ic ((x # xs) @ ys) (prev, rest)" by (simp add: n acm add.assoc)
  qed
qed

lemma digit_word: "digit c \<Longrightarrow> word_char c"
  by (simp add: digit_def word_char_def)

lemma in_class_digit: "in_class False [CDigit] c = digit c"
  by (simp add: in_class_def digit_def)

lemma IP_RX_split: "IP_RX = IP_FRONT @ [Rep [CDigit] 1 (Some 3), WordB]"
  by (simp add: IP_RX_def IP_FRONT_def)

lemma ip_start:
  assumes "n \<in> reach False IP_RX (p, x)"
  shows "x \<noteq> [] \<and> digit (hd x) \<and> \<not> is_word p"
proof -
  define tl1 where "tl1 = tl IP_RX"
  define tl2 where "tl2 = tl tl1"
  have s1: "IP_RX = WordB # tl1" and s2: "tl1 = Rep [CDigit] 1 (Some 3) # tl2"
    by (simp_all add: tl1_def tl2_def IP_RX_def)
  from assms obtain c0 m0 where c0: "c0 \<in> set (node_counts False WordB (p, x))"
    and m0: "m0 \<in> reach False tl1 (advance (p, x) c0)"
    unfolding s1 reach_Cons_iff by blast
  from c0 have z: "c0 = 0" and wb: "is_word p \<noteq> is_word (next_char x)"
    by (simp_all add: wordb_count_iff)
  from m0 z have "m0 \<in> reach False tl1 (p, x)" by (simp add: advance.simps)
  then obtain c1 where "c1 \<in> set (node_counts False (Rep [CDigit] 1 (Some 3)) (p, x))"
    unfolding s2 reach_Cons_iff by blast
  then have "1 \<le> c1" "c1 \<le> length x" "\<forall>i < c1. digit (x ! i)"
    by (simp_all add: rep_count_iff in_class_digit)
  then have x: "x \<noteq> []" and d: "digit (x ! 0)" by auto
  then have d': "digit (hd x)" by (simp add: hd_conv_nth)
  from x d' have "is_word (next_char x)"
    by (cases x) (simp_all add: next_char_def is_word_def digit_word)
  with wb x d' show ?thesis by simp
qed

lemma ip_end:
  assumes "n \<in> reach False IP_RX (p, x)"
  shows "0 < n \<and> n \<le> length x \<and> digit (x ! (n - 1)) \<and> \<not> is_word (next_char (drop n x))"
proof -
  from assms obtain a b where a: "a \<in> reach False IP_FRONT (p, x)"
    and b: "b \<in> reach False [Rep [CDigit] 1 (Some 3), WordB] (advance (p, x) a)"
    and n: "n = a + b"
    unfolding IP_RX_split reach_append by blast
  from reach_bounds [OF a] have al: "a \<le> length x" by simp
  from b obtain c z where c: "c \<in> set (node_counts False (Rep [CDigit] 1 (Some 3))
                                        (ctx p (take a x), drop a x))"
    and z: "z \<in> set (node_counts False WordB (advance (ctx p (take a x), drop a x) c))"
    and bc: "b = c + z"
    unfolding reach_Cons_iff advance_ctx [OF al] by auto
  from c have c': "1 \<le> c" "c \<le> length (drop a x)" "\<forall>i < c. digit (drop a x ! i)"
    by (simp_all add: rep_count_iff in_class_digit)
  from c'(1,3) have "digit (drop a x ! (c - 1))" by simp
  with c'(2) al have last: "digit (x ! (a + c - 1))" using c'(1) by (simp add: add.commute)
  have adv: "advance (ctx p (take a x), drop a x) c
               = (Some (x ! (a + c - 1)), drop (a + c) x)"
    using c' al by (simp add: advance.simps add.commute)
  from z have z0: "z = 0" and wb: "is_word (Some (x ! (a + c - 1))) \<noteq> is_word (next_char (drop (a + c) x))"
    unfolding adv by (simp_all add: wordb_count_iff)
  from last have "is_word (Some (x ! (a + c - 1)))" by (simp add: is_word_def digit_word)
  with wb have "\<not> is_word (next_char (drop (a + c) x))" by simp
  moreover have "n = a + c" by (simp add: n bc z0)
  moreover have "a + c \<le> length x" using c'(2) al by simp
  ultimately show ?thesis using last c'(1) by simp
qed

lemma node_counts_word_context:
  assumes "a \<noteq> Bol" and "is_word q = is_word p"
  shows "node_counts ic a (q, x) = node_counts ic a (p, x)"
  using assms by (cases a) (simp_all add: node_counts.simps)

lemma reach_word_context:
  assumes "Bol \<notin> set rx" and "is_word q = is_word p"
  shows "reach ic rx (q, x) = reach ic rx (p, x)"
  using assms
proof (induction rx arbitrary: p q x)
  case Nil
  then show ?case by simp
next
  case (Cons a rx)
  from Cons.prems have nc: "node_counts ic a (q, x) = node_counts ic a (p, x)"
    by (intro node_counts_word_context) auto
  have "reach ic rx (advance (q, x) c) = reach ic rx (advance (p, x) c)" for c
  proof (cases "c = 0")
    case True
    with Cons.prems Cons.IH [of q p x] show ?thesis by (simp add: advance.simps)
  next
    case False
    then show ?thesis by (simp add: advance.simps)
  qed
  with nc show ?case by (simp add: reach.simps)
qed

lemma ip_no_bol: "Bol \<notin> set IP_RX"
  by (simp add: IP_RX_def)

lemma ip_bracket: "\<not> eats False IP_RX CHR ''[''" "\<not> digit CHR ''[''"
  by code_simp+

lemma ip_through:
  "g \<noteq> [] \<Longrightarrow>
   reach False IP_RX (q, g @ replace_from False IP_RX ''[REDACTED_IP]'' (Some (last g), v)) \<noteq> {}
     \<Longrightarrow> reach False IP_RX (q, g @ v) \<noteq> {}"
proof (induction "length v" arbitrary: v g rule: less_induct)
  case less
  show ?case
  proof (cases "match_at False IP_RX (Some (last g), v)")
    case None
    show ?thesis
    proof (cases v)
      case Nil
      with less.prems None show ?thesis by (simp add: replace_from_None)
    next
      case (Cons c cs)
      with less.prems None
      have "reach False IP_RX
              (q, (g @ [c]) @ replace_from False IP_RX ''[REDACTED_IP]'' (Some (last (g @ [c])), cs))
            \<noteq> {}"
        by (simp add: replace_from_None)
      from less.hyps [OF _ _ this] Cons show ?thesis by simp
    qed
  next
    case (Some r)
    have ml: "0 < sum_list (map node_min IP_RX)" by (simp add: IP_RX_def)
    from match_consumes [OF Some ml] obtain k where k: "0 < k" "k \<le> length v"
      "k \<in> reach False IP_RX (Some (last g), v)"
      and r: "r = (ctx (Some (last g)) (take k v), drop k v)" by auto
    let ?O = "replace_from False IP_RX ''[REDACTED_IP]'' (ctx (Some (last g)) (take k v), drop k v)"
    from Some r k have out: "replace_from False IP_RX ''[REDACTED_IP]'' (Some (last g), v)
        = ''[REDACTED_IP]'' @ ?O"
      by (intro replace_from_Some) simp_all
    from less.prems(2) obtain n where n: "n \<in> reach False IP_RX (q, g @ CHR ''['' # ''REDACTED_IP]'' @ ?O)"
      unfolding out by auto
    have ng: "n \<le> length g"
    proof (rule ccontr)
      assume "\<not> n \<le> length g"
      then have "CHR ''['' \<in> set (take n (g @ CHR ''['' # ''REDACTED_IP]'' @ ?O))"
        by (simp add: take_Cons')
      with reach_bounds [OF n] ip_bracket(1) show False by blast
    qed
    have "n \<noteq> length g"
    proof
      assume eq: "n = length g"
      from ip_end [OF n] have "0 < n" "digit ((g @ CHR ''['' # ''REDACTED_IP]'' @ ?O) ! (n - 1))"
        by simp_all
      with eq have "digit (last g)" by (simp add: nth_append last_conv_nth less.prems(1))
      then have "is_word (Some (last g))" by (simp add: is_word_def digit_word)
      with ip_start [OF k(3)] show False by simp
    qed
    with ng have "n < length g" by simp
    from reach_transfer [OF n ng, of q v] this show ?thesis by auto
  qed
qed

lemma clean_appendI:
  assumes "\<And>u w. a = u @ w \<Longrightarrow> w \<noteq> [] \<Longrightarrow> match_at ic rx (ctx q u, w @ b) = None"
      and "clean ic rx (ctx q a) b"
  shows "clean ic rx q (a @ b)"
  using assms
proof (induction a arbitrary: q)
  case Nil
  then show ?case by (simp add: ctx_def)
next
  case (Cons x a)
  have "match_at ic rx (q, (x # a) @ b) = None"
    using Cons.prems(1) [of "[]" "x # a"] by (simp add: ctx_def)
  moreover have "clean ic rx (Some x) (a @ b)"
  proof (rule Cons.IH)
    fix u w assume "a = u @ w" "w \<noteq> []"
    then show "match_at ic rx (ctx (Some x) u, w @ b) = None"
      using Cons.prems(1) [of "x # u" w] by (simp add: ctx_Cons)
  next
    show "clean ic rx (ctx (Some x) a) b" using Cons.prems(2) by (simp add: ctx_Cons)
  qed
  ultimately show ?case by (simp add: clean_Cons)
qed

lemma token_no_digit: "\<forall>c \<in> set ''[REDACTED_IP]''. \<not> digit c"
proof -
  have "\<not> digit CHR ''[''" "\<not> digit CHR ''R''" "\<not> digit CHR ''E''" "\<not> digit CHR ''D''"
    "\<not> digit CHR ''A''" "\<not> digit CHR ''C''" "\<not> digit CHR ''T''" "\<not> digit CHR ''_''"
    "\<not> digit CHR ''I''" "\<not> digit CHR ''P''" "\<not> digit CHR '']''"
    by code_simp+
  then show ?thesis by simp
qed

lemma ip_replace_clean:
  "is_word q = is_word prev \<or> \<not> is_word (next_char rest) \<Longrightarrow>
   clean False IP_RX q (replace_from False IP_RX ''[REDACTED_IP]'' (prev, rest))"
proof (induction "length rest" arbitrary: rest prev q rule: less_induct)
  case less
  show ?case
  proof (cases "match_at False IP_RX (prev, rest)")
    case None
    show ?thesis
    proof (cases rest)
      case Nil
      have "match_at False IP_RX (q, []) = None"
        unfolding match_at_None using ip_start [of _ q "[]"] by blast
      with None Nil show ?thesis by (simp add: replace_from_None clean_Nil)
    next
      case (Cons c cs)
      let ?O = "replace_from False IP_RX ''[REDACTED_IP]'' (Some c, cs)"
      have "match_at False IP_RX (q, c # ?O) = None"
        unfolding match_at_None
      proof (rule ccontr)
        assume ne: "reach False IP_RX (q, c # ?O) \<noteq> {}"
        then obtain n where n: "n \<in> reach False IP_RX (q, c # ?O)" by blast
        from ip_start [OF n] have "digit c" "\<not> is_word q" by simp_all
        then have "is_word (next_char rest)"
          by (simp add: Cons next_char_def is_word_def digit_word)
        with less.prems have "is_word q = is_word prev" by simp
        from reach_word_context [OF ip_no_bol this] ne
        have "reach False IP_RX (prev, [c] @ replace_from False IP_RX ''[REDACTED_IP]''
                                          (Some (last [c]), cs)) \<noteq> {}"
          by simp
        from ip_through [OF _ this] have "reach False IP_RX (prev, c # cs) \<noteq> {}" by simp
        with None Cons show False by (simp add: match_at_None)
      qed
      moreover have "clean False IP_RX (Some c) ?O"
        by (rule less.hyps) (simp_all add: Cons)
      ultimately show ?thesis using None Cons by (simp add: replace_from_None clean_Cons)
    qed
  next
    case (Some r)
    have ml: "0 < sum_list (map node_min IP_RX)" by (simp add: IP_RX_def)
    from match_consumes [OF Some ml] obtain k where k: "0 < k" "k \<le> length rest"
      "k \<in> reach False IP_RX (prev, rest)"
      and r: "r = (ctx prev (take k rest), drop k rest)" by auto
    let ?O = "replace_from False IP_RX ''[REDACTED_IP]'' (ctx prev (take k rest), drop k rest)"
    from Some r k have out: "replace_from False IP_RX ''[REDACTED_IP]'' (prev, rest)
        = ''[REDACTED_IP]'' @ ?O"
      by (intro replace_from_Some) simp_all
    have "clean False IP_RX q (''[REDACTED_IP]'' @ ?O)"
    proof (rule clean_appendI)
      fix u w assume uw: "''[REDACTED_IP]'' = u @ w" "w \<noteq> []"
      then have "hd w \<in> set ''[REDACTED_IP]''"
        by (metis hd_in_set in_set_conv_decomp list.set_sel(1) Un_iff set_append)
      with token_no_digit have nd: "\<not> digit (hd (w @ ?O))" using uw(2) by auto
      show "match_at False IP_RX (ctx q u, w @ ?O) = None"
        unfolding match_at_None using ip_start [of _ "ctx q u" "w @ ?O"] nd by blast
    next
      have "ctx q ''[REDACTED_IP]'' = Some CHR '']''" by (simp add: ctx_def)
      moreover have "clean False IP_RX (Some CHR '']'') ?O"
      proof (rule less.hyps)
        show "length (drop k rest) < length rest" using k by simp
        from ip_end [OF k(3)] show "is_word (Some CHR '']'') = is_word (ctx prev (take k rest))
            \<or> \<not> is_word (next_char (drop k rest))" by simp
      qed
      ultimately show "clean False IP_RX (ctx q ''[REDACTED_IP]'') ?O" by simp
    qed
    with out show ?thesis by simp
  qed
qed

section \<open>The four replacements of the sanitizer\<close>

lemma replace_all_clean:
  "clean ic rx None s \<Longrightarrow> replace_all ic rx repl s = s"
  by (simp add: replace_all_def replace_clean)

lemma free_replace_self:
  assumes "list_all consuming rx" and "\<not> eats ic rx e" and "0 < sum_list (map node_min rx)"
      and "free ic rx ts"
      and "\<And>g p v. hit ic rx (g @ replace_from ic rx (ts @ [e]) (p, v)) \<Longrightarrow> hit ic rx (g @ v)"
  shows "free ic rx (replace_all ic rx (ts @ [e]) s)"
  unfolding replace_all_def
proof (rule free_replace [OF assms(1-4)])
  fix g p v assume "hit ic rx (g @ replace_from ic rx (ts @ [e]) (p, v))"
  then show "hit ic rx (g @ v)" by (rule assms(5))
next
  fix u v assume "match_at ic rx (ctx None u, v) = None"
  then show "\<not> hit ic rx v"
    by (simp add: hit_iff [OF assms(1), of ic v "ctx None u"] match_at_None)
qed

lemma free_replace_other:
  assumes "list_all consuming rxj" and "\<not> eats icj rxj CHR ''[''" and "\<not> eats icj rxj CHR '']''"
      and "0 < sum_list (map node_min rxi)"
      and "free icj rxj (CHR ''['' # body)"
      and "free icj rxj s"
  shows "free icj rxj (replace_all ici rxi ((CHR ''['' # body) @ '']'') s)"
  unfolding replace_all_def
proof (rule free_replace [OF assms(1) assms(3) assms(4) assms(5)])
  fix g p v
  assume "hit icj rxj (g @ replace_from ici rxi ((CHR ''['' # body) @ '']'') (p, v))"
  then have "hit icj rxj (g @ replace_from ici rxi (CHR ''['' # (body @ '']'')) (p, v))" by simp
  from hit_through_replace [OF assms(1) assms(2) assms(4) this] show "hit icj rxj (g @ v)" .
next
  fix u v assume "s = u @ v"
  with assms(6) show "\<not> hit icj rxj v" by (simp add: free_def)
qed

lemma tokens:
  "''Bearer [REDACTED]'' = ''Bearer [REDACTED'' @ '']''"
  "''[REDACTED_ID]'' = (CHR ''['' # ''REDACTED_ID'') @ '']''"
  "''[REDACTED_EMAIL]'' = (CHR ''['' # ''REDACTED_EMAIL'') @ '']''"
  "''[REDACTED_IP]'' = (CHR ''['' # ''REDACTED_IP'') @ '']''"
  by simp_all

lemma redact_free:
  "free True BEARER_RX (redact x)" "free True HEX_RX (redact x)"
  "free False EMAIL_RX (redact x)" "clean False IP_RX None (redact x)"
proof -
  let ?x1 = "replace_all True BEARER_RX ''Bearer [REDACTED]'' x"
  let ?x2 = "replace_all True HEX_RX ''[REDACTED_ID]'' ?x1"
  let ?x3 = "replace_all False EMAIL_RX ''[REDACTED_EMAIL]'' ?x2"
  let ?x4 = "replace_all False IP_RX ''[REDACTED_IP]'' ?x3"
  have r: "redact x = ?x4" by (simp add: redact_def)
  have b1: "free True BEARER_RX ?x1"
    unfolding tokens(1)
    by (rule free_replace_self [OF consuming_rx(1) brackets_not_eaten(2) min_len_rx(1)
               free_tokens_bearer(1)])
       (rule bearer_through [unfolded tokens(1)])
  have b2: "free True BEARER_RX ?x2"
    unfolding tokens(2)
    by (rule free_replace_other [OF consuming_rx(1) brackets_not_eaten(1,2) min_len_rx(2) _ b1])
       (rule free_tokens_bearer(2))
  have b3: "free True BEARER_RX ?x3"
    unfolding tokens(3)
    by (rule free_replace_other [OF consuming_rx(1) brackets_not_eaten(1,2) min_len_rx(3) _ b2])
       (rule free_tokens_bearer(3))
  have b4: "free True BEARER_RX ?x4"
    unfolding tokens(4)
    by (rule free_replace_other [OF consuming_rx(1) brackets_not_eaten(1,2) min_len_rx(4) _ b3])
       (rule free_tokens_bearer(4))
  have h2: "free True HEX_RX ?x2"
    unfolding tokens(2)
    by (rule free_replace_self [OF consuming_rx(2) brackets_not_eaten(4) min_len_rx(2)])
       (simp add: free_tokens_hex(1),
        rule hit_through_replace [OF consuming_rx(2) brackets_not_eaten(3) min_len_rx(2)], simp)
  have h3: "free True HEX_RX ?x3"
    unfolding tokens(3)
    by (rule free_replace_other [OF consuming_rx(2) brackets_not_eaten(3,4) min_len_rx(3) _ h2])
       (rule free_tokens_hex(2))
  have h4: "free True HEX_RX ?x4"
    unfolding tokens(4)
    by (rule free_replace_other [OF consuming_rx(2) brackets_not_eaten(3,4) min_len_rx(4) _ h3])
       (rule free_tokens_hex(3))
  have e3: "free False EMAIL_RX ?x3"
    unfolding tokens(3)
    by (rule free_replace_self [OF consuming_rx(3) brackets_not_eaten(6) min_len_rx(3)])
       (simp add: free_tokens_email(1),
        rule hit_through_replace [OF consuming_rx(3) brackets_not_eaten(5) min_len_rx(3)], simp)
  have e4: "free False EMAIL_RX ?x4"
    unfolding tokens(4)
    by (rule free_replace_other [OF consuming_rx(3) brackets_not_eaten(5,6) min_len_rx(4) _ e3])
       (rule free_tokens_email(2))
  have i4: "clean False IP_RX None ?x4"
    unfolding replace_all_def [of False IP_RX] by (rule ip_replace_clean) simp
  from b4 h4 e4 i4 show "free True BEARER_RX (redact x)" "free True HEX_RX (redact x)"
    "free False EMAIL_RX (redact x)" "clean False IP_RX None (redact x)"
    by (simp_all only: r)
qed

lemma redact_idempotent: "redact (redact x) = redact x"
proof -
  let ?y = "redact x"
  have 1: "replace_all True BEARER_RX ''Bearer [REDACTED]'' ?y = ?y"
    by (rule replace_all_clean [OF free_clean [OF consuming_rx(1) redact_free(1)]])
  have 2: "replace_all True HEX_RX ''[REDACTED_ID]'' ?y = ?y"
    by (rule replace_all_clean [OF free_clean [OF consuming_rx(2) redact_free(2)]])
  have 3: "replace_all False EMAIL_RX ''[REDACTED_EMAIL]'' ?y = ?y"
    by (rule replace_all_clean [OF free_clean [OF consuming_rx(3) redact_free(3)]])
  have 4: "replace_all False IP_RX ''[REDACTED_IP]'' ?y = ?y"
    by (rule replace_all_clean [OF redact_free(4)])
  show ?thesis by (subst (1) redact_def) (simp only: 1 2 3 4)
qed

text \<open>
  C7. \<open>sanitizeErrorMessage\<close> is a total function, and it is idempotent on every
  message whose redacted form is shorter than 200 characters: a second pass finds no
  match of any of the four patterns in the result of the first, so it leaves the
  markers \<open>Bearer [REDACTED]\<close>, \<open>[REDACTED_ID]\<close>, \<open>[REDACTED_EMAIL]\<close> and
  \<open>[REDACTED_IP]\<close> as they are.
\<close>

theorem sanitize_idempotent:
  assumes "length (redact x) < 200"
  shows "sanitizeErrorMessage (sanitizeErrorMessage x) = sanitizeErrorMessage x"
proof -
  from assms have s: "sanitizeErrorMessage x = redact x"
    by (simp add: sanitizeErrorMessage_def Let_def)
  from assms show ?thesis
    by (simp add: s) (simp add: sanitizeErrorMessage_def Let_def redact_idempotent)
qed

theorem sanitize_idempotent_witness:
  "length (redact ''Bearer k 1.2.3.4'') < 200
   \<and> sanitizeErrorMessage (sanitizeErrorMessage ''Bearer k 1.2.3.4'')
       = sanitizeErrorMessage ''Bearer k 1.2.3.4''"
proof -
  have h: "length (redact ''Bearer k 1.2.3.4'') < 200" by code_simp
  from h sanitize_idempotent [OF h] show ?thesis by (rule conjI)
qed

end
